theory Spec2Isabelle
  imports Complex_Main "HOL-Library.Multiset" "HOL-Library.Word" "HOL-Library.AList"
    "HOL-Library.Sublist"
begin

text \<open>
  The programs \<^verbatim>\<open>U.LAB.1\<close> to \<^verbatim>\<open>U.LAB.10\<close> are independent console exercises. The
  first part of this theory embeds the functions and classes that the verified properties are
  about, program by program; the second part proves the properties. Text written to
  \<^verbatim>\<open>std::cout\<close> and \<^verbatim>\<open>std::cerr\<close> is left out of the functions' results unless a
  property speaks about it.
\<close>

chapter \<open>The programs\<close>

section \<open>The contract of \<^verbatim>\<open>std::sort\<close>\<close>

text \<open>
  \<^verbatim>\<open>std::sort(first, last, comp)\<close> is library code. The standard promises that the
  range afterwards holds the same elements and that the comparison orders no element before
  an element to its left; it promises nothing about the order of equivalent elements. A
  function \<open>srt\<close> on lists stands for the library's sort wherever that order can matter,
  and \<open>std_sort_contract cmp srt\<close> says that \<open>srt\<close> keeps the promise for the comparison
  \<open>cmp\<close>.
\<close>

definition std_sort_contract :: "('a \<Rightarrow> 'a \<Rightarrow> bool) \<Rightarrow> ('a list \<Rightarrow> 'a list) \<Rightarrow> bool" where
  "std_sort_contract cmp srt =
     (\<forall>xs. mset (srt xs) = mset xs \<and> sorted_wrt (\<lambda>a b. \<not> cmp b a) (srt xs))"

section \<open>U.LAB.1: the knights' tournament\<close>

text \<open>
  A C++ \<^verbatim>\<open>int\<close> is a 32-bit word read as two's complement. \<^verbatim>\<open>calculateSum\<close> adds the
  strengths of one knight; the addition of words wraps around.
\<close>

type_synonym cpp_int = "32 word"

definition INT_MIN :: cpp_int where
  "INT_MIN = - (2 ^ 31)"

definition calculateSum :: "cpp_int list \<Rightarrow> cpp_int" where
  "calculateSum array = fold (\<lambda>num sum. sum + num) array 0"

text \<open>
  The loop of \<^verbatim>\<open>findKnightWithMaxSum\<close>: \<open>i\<close> is the index of the next knight,
  \<open>maxSum\<close> and \<open>knightIndex\<close> are the two locals. The comparison
  \<^verbatim>\<open>currentSum > maxSum\<close> is the signed one. The index is an integer: it does not
  overflow on a vector of fewer than \<open>2^31\<close> knights.
\<close>

fun findKnightWithMaxSum_loop :: "cpp_int list list \<Rightarrow> int \<Rightarrow> cpp_int \<Rightarrow> int \<Rightarrow> int" where
  "findKnightWithMaxSum_loop [] i maxSum knightIndex = knightIndex"
| "findKnightWithMaxSum_loop (knight # knights) i maxSum knightIndex =
     (let currentSum = calculateSum knight in
      if sint currentSum > sint maxSum
      then findKnightWithMaxSum_loop knights (i + 1) currentSum i
      else findKnightWithMaxSum_loop knights (i + 1) maxSum knightIndex)"

definition findKnightWithMaxSum :: "cpp_int list list \<Rightarrow> int" where
  "findKnightWithMaxSum knights = findKnightWithMaxSum_loop knights 0 INT_MIN (- 1)"

section \<open>U.LAB.3: the library catalog\<close>

text \<open>
  \<^verbatim>\<open>struct Book\<close> of \<^verbatim>\<open>U.LAB.3.cpp\<close>. The catalog is a \<^verbatim>\<open>std::vector<Book>\<close>, here a
  list. \<^verbatim>\<open>borrow_book\<close> and \<^verbatim>\<open>return_book\<close> mutate the vector in place and return a
  flag; the model returns the flag together with the vector after the call.
\<close>

record Book =
  isbn :: string
  title :: string
  author :: string
  year :: int
  is_available :: bool
  pages :: int

text \<open>
  The range-for loop stops at the first book whose ISBN matches: it flips the flag and returns
  true when the book is available, returns false when it is not; when no book matches, the
  loop ends and the function returns false.
\<close>

fun borrow_book :: "Book list \<Rightarrow> string \<Rightarrow> bool \<times> Book list" where
  "borrow_book [] i = (False, [])"
| "borrow_book (book # books) i =
     (if isbn book = i then
        (if is_available book then (True, book\<lparr>is_available := False\<rparr> # books)
         else (False, book # books))
      else (case borrow_book books i of (r, books') \<Rightarrow> (r, book # books')))"

fun return_book :: "Book list \<Rightarrow> string \<Rightarrow> bool \<times> Book list" where
  "return_book [] i = (False, [])"
| "return_book (book # books) i =
     (if isbn book = i then
        (if \<not> is_available book then (True, book\<lparr>is_available := True\<rparr> # books)
         else (False, book # books))
      else (case return_book books i of (r, books') \<Rightarrow> (r, book # books')))"

definition catalog_demo :: "Book list" where
  "catalog_demo =
     [\<lparr>isbn = ''111-1-111-11111-1'', title = ''The Great Journey'', author = ''John Smith'',
       year = 1999, is_available = False, pages = 320\<rparr>,
      \<lparr>isbn = ''222-2-222-22222-2'', title = ''A Secret Garden'', author = ''Mary Brown'',
       year = 2010, is_available = True, pages = 150\<rparr>]"

section \<open>U.LAB.5: geometric shapes\<close>

text \<open>
  The sizes are \<^verbatim>\<open>double\<close>s. The setters only compare a size with zero and store it, so a
  \<^verbatim>\<open>double\<close> is modelled by what decides that comparison: it is a NaN, an infinity or a
  finite number (every real may stand for a finite \<^verbatim>\<open>double\<close>; negative zero is the
  number 0). A comparison with a NaN operand is false.
\<close>

datatype double = NaN | NegInf | Finite real | PosInf

fun ge_zero :: "double \<Rightarrow> bool" where
  "ge_zero NaN = False"
| "ge_zero NegInf = False"
| "ge_zero (Finite r) = (r \<ge> 0)"
| "ge_zero PosInf = True"

fun lt_zero :: "double \<Rightarrow> bool" where
  "lt_zero NaN = False"
| "lt_zero NegInf = True"
| "lt_zero (Finite r) = (r < 0)"
| "lt_zero PosInf = False"

record Figure =
  size1 :: double
  size2 :: double
  size3 :: double

datatype invalid_argument = invalid_argument string

text \<open>
  A setter returns normally (\<open>Inr ()\<close>) or throws (\<open>Inl\<close>); the second component is the
  object after the call.
\<close>

definition setSize1 :: "double \<Rightarrow> 'a Figure_scheme \<Rightarrow> (invalid_argument + unit) \<times> 'a Figure_scheme" where
  "setSize1 p1 f =
     (if ge_zero p1 then (Inr (), f\<lparr>size1 := p1\<rparr>)
      else (Inl (invalid_argument ''Size must be greater than zero''), f))"

definition setSize2 :: "double \<Rightarrow> 'a Figure_scheme \<Rightarrow> (invalid_argument + unit) \<times> 'a Figure_scheme" where
  "setSize2 p2 f =
     (if ge_zero p2 then (Inr (), f\<lparr>size2 := p2\<rparr>)
      else (Inl (invalid_argument ''Size must be greater than zero''), f))"

definition setSize3 :: "double \<Rightarrow> 'a Figure_scheme \<Rightarrow> (invalid_argument + unit) \<times> 'a Figure_scheme" where
  "setSize3 p3 f =
     (if ge_zero p3 then (Inr (), f\<lparr>size3 := p3\<rparr>)
      else (Inl (invalid_argument ''Size must be greater than zero''), f))"

definition figure_demo :: Figure where
  "figure_demo = \<lparr>size1 = Finite 3, size2 = Finite 4, size3 = Finite 5\<rparr>"

text \<open>
  An object of one of the three derived classes is the base class's fields together with its
  dynamic type. \<^verbatim>\<open>Geometry_Dash\<close> owns a vector of pointers to such objects and a
  capacity; freeing the objects is not modelled.
\<close>

datatype FigureType = Square | Rectangle | Triangle

record Shape = Figure +
  getType :: FigureType

record Geometry_Dash =
  figures :: "Shape list"
  maxSize :: nat

definition Geometry_Dash_new :: "nat \<Rightarrow> Geometry_Dash" where
  "Geometry_Dash_new max_arg = \<lparr>figures = [], maxSize = max_arg\<rparr>"

definition Geometry_Dash_default :: Geometry_Dash where
  "Geometry_Dash_default = Geometry_Dash_new 15"

definition addFigure :: "Shape \<Rightarrow> Geometry_Dash \<Rightarrow> bool \<times> Geometry_Dash" where
  "addFigure figure gd =
     (if length (figures gd) < maxSize gd
      then (True, gd\<lparr>figures := figures gd @ [figure]\<rparr>)
      else (False, gd))"

definition removeFigure :: "nat \<Rightarrow> Geometry_Dash \<Rightarrow> bool \<times> Geometry_Dash" where
  "removeFigure idx gd =
     (if idx < length (figures gd)
      then (True, gd\<lparr>figures := take idx (figures gd) @ drop (Suc idx) (figures gd)\<rparr>)
      else (False, gd))"

definition clear :: "Geometry_Dash \<Rightarrow> Geometry_Dash" where
  "clear gd = gd\<lparr>figures := []\<rparr>"

text \<open>
  \<^verbatim>\<open>sortBySquare\<close> hands the vector to \<^verbatim>\<open>std::sort\<close> with a comparison of
  floating-point areas; \<open>srt\<close> is what the library's sort does with that comparison.
\<close>

definition sortBySquare :: "(Shape list \<Rightarrow> Shape list) \<Rightarrow> Geometry_Dash \<Rightarrow> Geometry_Dash" where
  "sortBySquare srt gd = gd\<lparr>figures := srt (figures gd)\<rparr>"

text \<open>
  \<^verbatim>\<open>generateRandomFigures\<close> draws a number \<^verbatim>\<open>count\<close>, here \<open>cnt\<close>, and then runs
  \<^verbatim>\<open>for (i = 0; i < count && figures.size() < maxSize; ++i)\<close>. The body draws a type and
  sizes and, inside \<^verbatim>\<open>try\<close>, constructs one figure and pushes it; a constructor may
  throw before the push, and then the \<^verbatim>\<open>catch\<close> block constructs a square and pushes
  that. The random draws and the floating-point arithmetic on them are inputs of the model:
  \<open>tried i\<close> is what the construction in the \<^verbatim>\<open>try\<close> block of iteration \<open>i\<close> gives (a
  figure, or the exception of its constructor), \<open>fallback i\<close> what the construction in the
  \<^verbatim>\<open>catch\<close> block gives. An exception of the latter leaves the function.
\<close>

function generateRandomFigures_loop ::
  "nat \<Rightarrow> nat \<Rightarrow> (nat \<Rightarrow> invalid_argument + Shape) \<Rightarrow> (nat \<Rightarrow> invalid_argument + Shape) \<Rightarrow>
   Geometry_Dash \<Rightarrow> (invalid_argument + unit) \<times> Geometry_Dash" where
  "generateRandomFigures_loop i cnt tried fallback gd =
     (if i < cnt \<and> length (figures gd) < maxSize gd then
        (case tried i of
           Inr figure \<Rightarrow>
             generateRandomFigures_loop (Suc i) cnt tried fallback
               (gd\<lparr>figures := figures gd @ [figure]\<rparr>)
         | Inl e \<Rightarrow>
            (case fallback i of
               Inr figure \<Rightarrow>
                 generateRandomFigures_loop (Suc i) cnt tried fallback
                   (gd\<lparr>figures := figures gd @ [figure]\<rparr>)
             | Inl e' \<Rightarrow> (Inl e', gd)))
      else (Inr (), gd))"
  by pat_completeness auto
termination
  by (relation "measure (\<lambda>(i, cnt, tried, fallback, gd). cnt - i)") auto

definition generateRandomFigures ::
  "nat \<Rightarrow> (nat \<Rightarrow> invalid_argument + Shape) \<Rightarrow> (nat \<Rightarrow> invalid_argument + Shape) \<Rightarrow>
   Geometry_Dash \<Rightarrow> (invalid_argument + unit) \<times> Geometry_Dash" where
  "generateRandomFigures cnt tried fallback gd =
     generateRandomFigures_loop 0 cnt tried fallback gd"

text \<open>The calls that can change a collection, and the collection after a sequence of them.\<close>

datatype Geometry_Dash_op =
    AddFigure Shape
  | RemoveFigure nat
  | Clear
  | SortBySquare
  | GenerateRandomFigures nat "nat \<Rightarrow> invalid_argument + Shape" "nat \<Rightarrow> invalid_argument + Shape"

fun Geometry_Dash_apply :: "(Shape list \<Rightarrow> Shape list) \<Rightarrow> Geometry_Dash_op \<Rightarrow> Geometry_Dash \<Rightarrow> Geometry_Dash" where
  "Geometry_Dash_apply srt (AddFigure figure) gd = snd (addFigure figure gd)"
| "Geometry_Dash_apply srt (RemoveFigure idx) gd = snd (removeFigure idx gd)"
| "Geometry_Dash_apply srt Clear gd = clear gd"
| "Geometry_Dash_apply srt SortBySquare gd = sortBySquare srt gd"
| "Geometry_Dash_apply srt (GenerateRandomFigures cnt tried fallback) gd =
     snd (generateRandomFigures cnt tried fallback gd)"

definition Geometry_Dash_run :: "(Shape list \<Rightarrow> Shape list) \<Rightarrow> Geometry_Dash_op list \<Rightarrow> Geometry_Dash \<Rightarrow> Geometry_Dash" where
  "Geometry_Dash_run srt ops gd = fold (Geometry_Dash_apply srt) ops gd"

definition unit_square :: Shape where
  "unit_square = \<lparr>size1 = Finite 1, size2 = Finite 0, size3 = Finite 0, getType = Square\<rparr>"

text \<open>
  For examples: the area of a square whose side is finite, computed without rounding, a sort
  by that area, and a run of calls on a collection of capacity 2.
\<close>

definition exact_area :: "Shape \<Rightarrow> real" where
  "exact_area s = (case size1 s of Finite r \<Rightarrow> r * r | _ \<Rightarrow> 0)"

definition sort_by_exact_area :: "Shape list \<Rightarrow> Shape list" where
  "sort_by_exact_area = sort_key exact_area"

definition Geometry_Dash_ops_demo :: "Geometry_Dash_op list" where
  "Geometry_Dash_ops_demo =
     [GenerateRandomFigures 5
        (\<lambda>i. if i = 0 then Inl (invalid_argument ''Triangle inequality violated'')
             else Inr (unit_square\<lparr>size1 := Finite 2\<rparr>))
        (\<lambda>i. Inr unit_square),
      AddFigure unit_square,
      SortBySquare,
      RemoveFigure 0,
      AddFigure (unit_square\<lparr>size1 := Finite 3\<rparr>)]"

definition Geometry_Dash_full_demo :: Geometry_Dash where
  "Geometry_Dash_full_demo =
     \<lparr>figures = [unit_square\<lparr>size1 := Finite 2\<rparr>, unit_square\<lparr>size1 := Finite 3\<rparr>], maxSize = 2\<rparr>"

text \<open>A collection of capacity \<open>n\<close> that holds at most \<open>n\<close> figures.\<close>

definition within_capacity :: "nat \<Rightarrow> Geometry_Dash \<Rightarrow> bool" where
  "within_capacity n gd = (maxSize gd = n \<and> length (figures gd) \<le> n)"

section \<open>U.LAB.8: the media library\<close>

type_synonym MediaId = string
type_synonym UserId = string

text \<open>
  The two classes that implement \<^verbatim>\<open>IMedia\<close>: a book has an id, a title and an author, an
  audio record an id, a title and a duration.
\<close>

datatype IMedia = Book_media MediaId string string | Audio_media MediaId string int

fun getId :: "IMedia \<Rightarrow> MediaId" where
  "getId (Book_media i t a) = i"
| "getId (Audio_media i t d) = i"

text \<open>
  \<^verbatim>\<open>InMemoryMediaRepository\<close>: \<open>storage\<close> is the vector of owning pointers (\<open>None\<close> is a
  null pointer), \<open>index\<close> the map from ids to positions in the vector.
\<close>

record InMemoryMediaRepository =
  storage :: "IMedia option list"
  index :: "MediaId \<rightharpoonup> nat"

definition InMemoryMediaRepository_new :: InMemoryMediaRepository where
  "InMemoryMediaRepository_new = \<lparr>storage = [], index = Map.empty\<rparr>"

definition addMedia :: "IMedia option \<Rightarrow> InMemoryMediaRepository \<Rightarrow> bool \<times> InMemoryMediaRepository" where
  "addMedia media r =
     (case media of
        None \<Rightarrow> (False, r)
      | Some m \<Rightarrow>
          (if index r (getId m) \<noteq> None then (False, r)
           else (True, r\<lparr>index := (index r)(getId m \<mapsto> length (storage r)),
                         storage := storage r @ [Some m]\<rparr>)))"

text \<open>
  \<^verbatim>\<open>storage_[idx]\<close> has no bounds check. The positions in the index are always inside the
  vector (lemma \<open>repo_inv_reachable\<close> below); the model leaves the vector alone, and
  \<open>findMedia\<close> answers with the null pointer, for a position outside.
\<close>

definition removeMedia :: "MediaId \<Rightarrow> InMemoryMediaRepository \<Rightarrow> bool \<times> InMemoryMediaRepository" where
  "removeMedia i r =
     (case index r i of
        Some idx \<Rightarrow> (True, r\<lparr>storage := (storage r)[idx := None], index := (index r)(i := None)\<rparr>)
      | None \<Rightarrow> (False, r))"

definition findMedia :: "MediaId \<Rightarrow> InMemoryMediaRepository \<Rightarrow> IMedia option" where
  "findMedia i r =
     (case index r i of
        Some idx \<Rightarrow> (if idx < length (storage r) then storage r ! idx else None)
      | None \<Rightarrow> None)"

definition getAllMedia :: "InMemoryMediaRepository \<Rightarrow> IMedia list" where
  "getAllMedia r = List.map_filter (\<lambda>ptr. ptr) (storage r)"

definition exists_media :: "MediaId \<Rightarrow> InMemoryMediaRepository \<Rightarrow> bool" where
  "exists_media i r = (index r i \<noteq> None)"

datatype repository_op = AddMedia "IMedia option" | RemoveMedia MediaId

fun repository_apply :: "repository_op \<Rightarrow> InMemoryMediaRepository \<Rightarrow> InMemoryMediaRepository" where
  "repository_apply (AddMedia media) r = snd (addMedia media r)"
| "repository_apply (RemoveMedia i) r = snd (removeMedia i r)"

definition repository_run :: "repository_op list \<Rightarrow> InMemoryMediaRepository \<Rightarrow> InMemoryMediaRepository" where
  "repository_run ops r = fold repository_apply ops r"

text \<open>The repository that \<^verbatim>\<open>setupInitialData\<close> builds, and the same after a removal.\<close>

definition repository_demo :: InMemoryMediaRepository where
  "repository_demo =
     repository_run
       [AddMedia (Some (Book_media ''B101'' ''The Martian'' ''Andy Weir'')),
        AddMedia (Some (Audio_media ''A201'' ''Dune Audiobook'' 30000)),
        AddMedia (Some (Book_media ''B102'' ''Neuromancer'' ''William Gibson''))]
       InMemoryMediaRepository_new"

definition repository_ops_demo :: "repository_op list" where
  "repository_ops_demo =
     [AddMedia (Some (Book_media ''B101'' ''The Martian'' ''Andy Weir'')),
      AddMedia (Some (Audio_media ''A201'' ''Dune Audiobook'' 30000)),
      AddMedia (Some (Book_media ''B102'' ''Neuromancer'' ''William Gibson'')),
      AddMedia (Some (Audio_media ''B101'' ''The Martian, read aloud'' 36000)),
      AddMedia None,
      RemoveMedia ''A201'',
      RemoveMedia ''A201'']"

text \<open>
  The index and the vector agree: an id in the index points to a slot inside the vector that
  holds a media with that id, and a slot that holds a media is the one the index gives for
  the id of the media.
\<close>

definition repo_inv :: "InMemoryMediaRepository \<Rightarrow> bool" where
  "repo_inv r =
     ((\<forall>i idx. index r i = Some idx \<longrightarrow>
          idx < length (storage r) \<and> (\<exists>m. storage r ! idx = Some m \<and> getId m = i)) \<and>
      (\<forall>idx m. idx < length (storage r) \<and> storage r ! idx = Some m \<longrightarrow>
          index r (getId m) = Some idx))"

text \<open>\<^verbatim>\<open>User\<close>: the fields \<^verbatim>\<open>id_\<close>, \<^verbatim>\<open>name_\<close> and \<^verbatim>\<open>issuedMediaIds_\<close>.\<close>

record User =
  user_id :: UserId
  user_name :: string
  issuedMediaIds :: "MediaId list"

definition issueMedia :: "MediaId \<Rightarrow> User \<Rightarrow> User" where
  "issueMedia mediaId u = u\<lparr>issuedMediaIds := issuedMediaIds u @ [mediaId]\<rparr>"

text \<open>\<^verbatim>\<open>std::remove\<close> followed by \<^verbatim>\<open>erase\<close> deletes every occurrence.\<close>

definition returnMedia :: "MediaId \<Rightarrow> User \<Rightarrow> User" where
  "returnMedia mediaId u = u\<lparr>issuedMediaIds := removeAll mediaId (issuedMediaIds u)\<rparr>"

definition hasMedia :: "MediaId \<Rightarrow> User \<Rightarrow> bool" where
  "hasMedia mediaId u = (List.find (\<lambda>x. x = mediaId) (issuedMediaIds u) \<noteq> None)"

text \<open>
  \<^verbatim>\<open>InMemoryUserManager\<close>: the entries of the \<^verbatim>\<open>std::map\<close> from user ids to users, in
  the order in which the map is iterated. A \<^verbatim>\<open>std::map\<close> holds a key once: the keys of
  the list are distinct.
\<close>

record InMemoryUserManager =
  users :: "(UserId \<times> User) list"

definition users_wf :: "InMemoryUserManager \<Rightarrow> bool" where
  "users_wf um = distinct (map fst (users um))"

definition exists_user :: "UserId \<Rightarrow> InMemoryUserManager \<Rightarrow> bool" where
  "exists_user i um = (map_of (users um) i \<noteq> None)"

definition getUser :: "UserId \<Rightarrow> InMemoryUserManager \<Rightarrow> User option" where
  "getUser i um = map_of (users um) i"

fun isMediaIssued_loop :: "MediaId \<Rightarrow> (UserId \<times> User) list \<Rightarrow> bool" where
  "isMediaIssued_loop mediaId [] = False"
| "isMediaIssued_loop mediaId (pair # pairs) =
     (if hasMedia mediaId (snd pair) then True else isMediaIssued_loop mediaId pairs)"

definition isMediaIssued :: "MediaId \<Rightarrow> InMemoryUserManager \<Rightarrow> bool" where
  "isMediaIssued mediaId um = isMediaIssued_loop mediaId (users um)"

text \<open>
  \<^verbatim>\<open>Library\<close> holds references to a repository and to a user manager. A call through the
  pointer that \<^verbatim>\<open>getUser\<close> returned changes the user stored under that id.
\<close>

record Library =
  mediaRepo :: InMemoryMediaRepository
  userManager :: InMemoryUserManager

definition put_user :: "UserId \<Rightarrow> User \<Rightarrow> InMemoryUserManager \<Rightarrow> InMemoryUserManager" where
  "put_user i u um = um\<lparr>users := AList.update i u (users um)\<rparr>"

definition issueMediaToUser :: "MediaId \<Rightarrow> UserId \<Rightarrow> Library \<Rightarrow> bool \<times> Library" where
  "issueMediaToUser mediaId userId lib =
     (case getUser userId (userManager lib) of
        None \<Rightarrow> (False, lib)
      | Some user \<Rightarrow>
         (case findMedia mediaId (mediaRepo lib) of
            None \<Rightarrow> (False, lib)
          | Some media \<Rightarrow>
             (if isMediaIssued mediaId (userManager lib) then (False, lib)
              else (True, lib\<lparr>userManager :=
                      put_user userId (issueMedia mediaId user) (userManager lib)\<rparr>))))"

definition returnMediaFromUser :: "MediaId \<Rightarrow> UserId \<Rightarrow> Library \<Rightarrow> bool \<times> Library" where
  "returnMediaFromUser mediaId userId lib =
     (case getUser userId (userManager lib) of
        None \<Rightarrow> (False, lib)
      | Some user \<Rightarrow>
         (if \<not> hasMedia mediaId user then (False, lib)
          else (True, lib\<lparr>userManager :=
                  put_user userId (returnMedia mediaId user) (userManager lib)\<rparr>)))"

datatype Library_op = IssueMediaToUser MediaId UserId | ReturnMediaFromUser MediaId UserId

fun Library_apply :: "Library_op \<Rightarrow> Library \<Rightarrow> Library" where
  "Library_apply (IssueMediaToUser mediaId userId) lib = snd (issueMediaToUser mediaId userId lib)"
| "Library_apply (ReturnMediaFromUser mediaId userId) lib = snd (returnMediaFromUser mediaId userId lib)"

definition Library_run :: "Library_op list \<Rightarrow> Library \<Rightarrow> Library" where
  "Library_run ops lib = fold Library_apply ops lib"

text \<open>Every media id is in the issued list of at most one user.\<close>

definition at_most_one_holder :: "InMemoryUserManager \<Rightarrow> bool" where
  "at_most_one_holder um =
     (\<forall>p \<in> set (users um). \<forall>q \<in> set (users um). \<forall>m.
        m \<in> set (issuedMediaIds (snd p)) \<and> m \<in> set (issuedMediaIds (snd q)) \<longrightarrow> fst p = fst q)"

text \<open>The library of \<^verbatim>\<open>main\<close> after \<^verbatim>\<open>setupInitialData\<close>.\<close>

definition library_demo :: Library where
  "library_demo =
     \<lparr>mediaRepo = repository_demo,
      userManager = \<lparr>users =
        [(''U001'', \<lparr>user_id = ''U001'', user_name = ''Alice'', issuedMediaIds = []\<rparr>),
         (''U002'', \<lparr>user_id = ''U002'', user_name = ''Bob'', issuedMediaIds = []\<rparr>)]\<rparr>\<rparr>"

definition Library_ops_demo :: "Library_op list" where
  "Library_ops_demo =
     [IssueMediaToUser ''B101'' ''U001'', IssueMediaToUser ''B101'' ''U002'',
      IssueMediaToUser ''A201'' ''U002'', ReturnMediaFromUser ''B101'' ''U002'',
      ReturnMediaFromUser ''B101'' ''U001'', IssueMediaToUser ''B101'' ''U002'']"

text \<open>What the calls of \<^verbatim>\<open>Library\<close> keep true of the user manager.\<close>

definition library_inv :: "Library \<Rightarrow> bool" where
  "library_inv lib = (users_wf (userManager lib) \<and> at_most_one_holder (userManager lib))"

section \<open>U.LAB.9: a map of vectors\<close>

text \<open>
  The \<^verbatim>\<open>std::map<int, std::vector<int>>\<close> is the list of its entries in iteration order.
  \<^verbatim>\<open>sortMapVectors\<close> visits every entry and sorts its vector with \<^verbatim>\<open>std::sort\<close> and
  the default \<^verbatim>\<open><\<close>. The numbers are only compared, so a C++ \<^verbatim>\<open>int\<close> is an integer
  here. On integers the sorted permutation of a list is unique: it is \<open>sort\<close> (lemma
  \<open>std_sort_linorder_unique\<close> below).
\<close>

definition sortMapVectors :: "(int \<times> int list) list \<Rightarrow> (int \<times> int list) list" where
  "sortMapVectors data = map (\<lambda>pair. (fst pair, sort (snd pair))) data"

definition data_demo :: "(int \<times> int list) list" where
  "data_demo = [(1, [42, 7, 99, 7, 15]), (2, [100, 1, 50, 49, 3])]"

section \<open>U.LAB.10: the task manager\<close>

record Task =
  description :: string
  priority :: int
  isCompleted :: bool

text \<open>
  The exception classes. \<^verbatim>\<open>TaskNotFoundError\<close> has a constructor from an index and one
  from a string.
\<close>

datatype TaskManagerException =
    DuplicateTaskError string
  | TaskNotFoundError_index int
  | TaskNotFoundError_text string
  | NoTasksError

record TaskManager =
  tasks :: "Task list"

definition TaskManager_new :: TaskManager where
  "TaskManager_new = \<lparr>tasks = []\<rparr>"

text \<open>\<^verbatim>\<open>findTask\<close>: the first task with the description, \<open>None\<close> for \<^verbatim>\<open>tasks_.end()\<close>.\<close>

definition findTask :: "string \<Rightarrow> TaskManager \<Rightarrow> Task option" where
  "findTask d tm = List.find (\<lambda>t. description t = d) (tasks tm)"

text \<open>The comparison that \<^verbatim>\<open>sortTasks\<close> passes to \<^verbatim>\<open>std::sort\<close>.\<close>

definition higher_priority :: "Task \<Rightarrow> Task \<Rightarrow> bool" where
  "higher_priority t1 t2 = (priority t1 > priority t2)"

definition sortTasks :: "(Task list \<Rightarrow> Task list) \<Rightarrow> TaskManager \<Rightarrow> TaskManager" where
  "sortTasks srt tm = tm\<lparr>tasks := srt (tasks tm)\<rparr>"

text \<open>
  A member function returns normally (\<open>Inr\<close>) or throws (\<open>Inl\<close>); the second component is
  the manager after the call.
\<close>

definition addTask ::
  "(Task list \<Rightarrow> Task list) \<Rightarrow> string \<Rightarrow> int \<Rightarrow> TaskManager \<Rightarrow> (TaskManagerException + unit) \<times> TaskManager" where
  "addTask srt d p tm =
     (if findTask d tm \<noteq> None then (Inl (DuplicateTaskError d), tm)
      else (Inr (),
            sortTasks srt
              (tm\<lparr>tasks := tasks tm @ [\<lparr>description = d, priority = p, isCompleted = False\<rparr>]\<rparr>)))"

text \<open>
  \<^verbatim>\<open>completeTask\<close>: \<^verbatim>\<open>static_cast<int>(index)\<close> keeps the low 32 bits of the index.
\<close>

definition completeTask :: "nat \<Rightarrow> TaskManager \<Rightarrow> (TaskManagerException + unit) \<times> TaskManager" where
  "completeTask idx tm =
     (if idx \<ge> length (tasks tm)
      then (Inl (TaskNotFoundError_index (sint (word_of_nat idx :: 32 word))), tm)
      else
        (let task = tasks tm ! idx in
         if isCompleted task
         then (Inl (TaskNotFoundError_text
                 (''Task '' @ [CHR 0x27] @ description task @ [CHR 0x27] @
                  '' is already marked completed.'')), tm)
         else (Inr (),
               tm\<lparr>tasks := take idx ((tasks tm)[idx := task\<lparr>isCompleted := True\<rparr>]) @
                            drop (Suc idx) ((tasks tm)[idx := task\<lparr>isCompleted := True\<rparr>])\<rparr>)))"

definition getNextTask :: "TaskManager \<Rightarrow> TaskManagerException + Task" where
  "getNextTask tm = (case tasks tm of [] \<Rightarrow> Inl NoTasksError | t # ts \<Rightarrow> Inr t)"

definition popNextTask :: "TaskManager \<Rightarrow> (TaskManagerException + Task) \<times> TaskManager" where
  "popNextTask tm =
     (case tasks tm of
        [] \<Rightarrow> (Inl NoTasksError, tm)
      | nextTask # ts \<Rightarrow> (Inr nextTask, tm\<lparr>tasks := ts\<rparr>))"

text \<open>
  \<^verbatim>\<open>displayTasks\<close> prints one line per task: its position, its priority, its description
  and, when the task is completed, the marker. The model gives these four parts of each line.
\<close>

definition displayTasks :: "TaskManager \<Rightarrow> (nat \<times> int \<times> string \<times> string) list" where
  "displayTasks tm =
     map (\<lambda>i. (i, priority (tasks tm ! i), description (tasks tm ! i),
               if isCompleted (tasks tm ! i) then '' (COMPLETED)'' else ''''))
       [0..<length (tasks tm)]"

text \<open>A run of \<^verbatim>\<open>addTask\<close> calls that stops at the first exception.\<close>

fun addTasks ::
  "(Task list \<Rightarrow> Task list) \<Rightarrow> (string \<times> int) list \<Rightarrow> TaskManager \<Rightarrow> TaskManagerException + TaskManager" where
  "addTasks srt [] tm = Inr tm"
| "addTasks srt ((d, p) # rest) tm =
     (case addTask srt d p tm of
        (Inl e, tm') \<Rightarrow> Inl e
      | (Inr u, tm') \<Rightarrow> addTasks srt rest tm')"

text \<open>
  The public member functions, and the manager after a sequence of calls, each of which may
  have returned or thrown.
\<close>

datatype TaskManager_op = AddTask string int | CompleteTask nat | GetNextTask | PopNextTask | DisplayTasks

fun TaskManager_apply :: "(Task list \<Rightarrow> Task list) \<Rightarrow> TaskManager_op \<Rightarrow> TaskManager \<Rightarrow> TaskManager" where
  "TaskManager_apply srt (AddTask d p) tm = snd (addTask srt d p tm)"
| "TaskManager_apply srt (CompleteTask idx) tm = snd (completeTask idx tm)"
| "TaskManager_apply srt GetNextTask tm = tm"
| "TaskManager_apply srt PopNextTask tm = snd (popNextTask tm)"
| "TaskManager_apply srt DisplayTasks tm = tm"

definition TaskManager_run :: "(Task list \<Rightarrow> Task list) \<Rightarrow> TaskManager_op list \<Rightarrow> TaskManager \<Rightarrow> TaskManager" where
  "TaskManager_run srt ops tm = fold (TaskManager_apply srt) ops tm"

text \<open>
  One function that keeps the contract of \<^verbatim>\<open>std::sort\<close> for \<open>higher_priority\<close>: the
  stable sort by descending priority.
\<close>

definition stable_sort_tasks :: "Task list \<Rightarrow> Task list" where
  "stable_sort_tasks ts = sort_key (\<lambda>t. - priority t) ts"

text \<open>The four tasks that \<^verbatim>\<open>main\<close> adds.\<close>

definition main_tasks :: "(string \<times> int) list" where
  "main_tasks =
     [(''Review Code'', 80), (''Fix Critical Bug'', 100),
      (''Write Documentation'', 20), (''Refactor Legacy Module'', 50)]"

text \<open>The manager after these four calls, with the library's sort stable.\<close>

definition tm_main :: TaskManager where
  "tm_main = \<lparr>tasks =
     [\<lparr>description = ''Fix Critical Bug'', priority = 100, isCompleted = False\<rparr>,
      \<lparr>description = ''Review Code'', priority = 80, isCompleted = False\<rparr>,
      \<lparr>description = ''Refactor Legacy Module'', priority = 50, isCompleted = False\<rparr>,
      \<lparr>description = ''Write Documentation'', priority = 20, isCompleted = False\<rparr>]\<rparr>"

text \<open>
  The calls of \<^verbatim>\<open>main\<close> up to the first \<^verbatim>\<open>popNextTask\<close> of the executor, and the
  manager after them.
\<close>

definition ops_main :: "TaskManager_op list" where
  "ops_main =
     [AddTask ''Review Code'' 80, AddTask ''Fix Critical Bug'' 100,
      AddTask ''Write Documentation'' 20, AddTask ''Refactor Legacy Module'' 50,
      DisplayTasks, AddTask ''Review Code'' 80, GetNextTask, CompleteTask 1, DisplayTasks,
      CompleteTask 10, PopNextTask]"

definition tm_after_main :: TaskManager where
  "tm_after_main = \<lparr>tasks =
     [\<lparr>description = ''Refactor Legacy Module'', priority = 50, isCompleted = False\<rparr>,
      \<lparr>description = ''Write Documentation'', priority = 20, isCompleted = False\<rparr>]\<rparr>"

text \<open>No stored task is completed.\<close>

definition none_completed :: "TaskManager \<Rightarrow> bool" where
  "none_completed tm = (\<forall>t \<in> set (tasks tm). \<not> isCompleted t)"

chapter \<open>The properties\<close>

section \<open>The contract of \<^verbatim>\<open>std::sort\<close>\<close>

lemma std_sort_contract_mset: "std_sort_contract cmp srt \<Longrightarrow> mset (srt xs) = mset xs"
  by (simp add: std_sort_contract_def)

lemma std_sort_contract_set: "std_sort_contract cmp srt \<Longrightarrow> set (srt xs) = set xs"
  by (metis std_sort_contract_mset set_mset_mset)

lemma std_sort_contract_length: "std_sort_contract cmp srt \<Longrightarrow> length (srt xs) = length xs"
  by (metis std_sort_contract_mset size_mset)

text \<open>A stable sort by a key keeps the contract for the comparison of the keys.\<close>

lemma sort_key_contract:
  fixes f :: "'a \<Rightarrow> 'k::linorder"
  shows "std_sort_contract (\<lambda>a b. f a < f b) (sort_key f)"
proof -
  have "sorted_wrt (\<lambda>a b. \<not> f b < f a) (sort_key f xs)" for xs
  proof -
    have "sorted (map f (sort_key f xs))"
      by (rule sorted_sort_key)
    then have "sorted_wrt (\<lambda>a b. f a \<le> f b) (sort_key f xs)"
      by (simp add: sorted_map)
    moreover have "(\<lambda>a b. f a \<le> f b) = (\<lambda>a b. \<not> f b < f a)"
      by (auto simp: fun_eq_iff)
    ultimately show ?thesis by simp
  qed
  then show ?thesis
    by (simp add: std_sort_contract_def)
qed

text \<open>
  On a linear order the contract for \<open><\<close> leaves one result only, the sorted list.
\<close>

lemma std_sort_linorder_unique:
  fixes srt :: "'a::linorder list \<Rightarrow> 'a list"
  assumes "std_sort_contract (<) srt"
  shows "srt xs = sort xs"
proof -
  from assms have "mset (srt xs) = mset xs" and "sorted_wrt (\<lambda>a b. \<not> b < a) (srt xs)"
    by (simp_all add: std_sort_contract_def)
  moreover have "(\<lambda>a b :: 'a. \<not> b < a) = (\<le>)"
    by (auto simp: fun_eq_iff)
  ultimately have "mset (srt xs) = mset xs" and "sorted (srt xs)"
    by simp_all
  then show ?thesis
    by (simp add: properties_for_sort)
qed

section \<open>U.LAB.1: the knights' tournament\<close>

lemma sint_INT_MIN: "sint INT_MIN = - (2 ^ 31)"
  by (simp add: INT_MIN_def)

lemma sint_ge_INT_MIN: "sint INT_MIN \<le> sint (w :: cpp_int)"
  using sint_ge [of w] by (simp add: sint_INT_MIN)

lemma findKnightWithMaxSum_loop_spec:
  "(\<forall>x \<in> set ks. sint (calculateSum x) \<le> sint m) \<and> findKnightWithMaxSum_loop ks i m k = k \<or>
   (\<exists>j < length ks. findKnightWithMaxSum_loop ks i m k = i + int j \<and>
      sint m < sint (calculateSum (ks ! j)) \<and>
      (\<forall>l < length ks. sint (calculateSum (ks ! l)) \<le> sint (calculateSum (ks ! j))) \<and>
      (\<forall>l < j. sint (calculateSum (ks ! l)) < sint (calculateSum (ks ! j))))"
proof (induction ks arbitrary: i m k)
  case Nil
  then show ?case by simp
next
  case (Cons x ks)
  show ?case
  proof (cases "sint (calculateSum x) > sint m")
    case True
    then have unfold: "findKnightWithMaxSum_loop (x # ks) i m k =
        findKnightWithMaxSum_loop ks (i + 1) (calculateSum x) i"
      by (simp add: Let_def)
    from Cons.IH [of "calculateSum x" "i + 1" i]
    show ?thesis
    proof
      assume h: "(\<forall>y \<in> set ks. sint (calculateSum y) \<le> sint (calculateSum x)) \<and>
                 findKnightWithMaxSum_loop ks (i + 1) (calculateSum x) i = i"
      have "0 < length (x # ks) \<and> findKnightWithMaxSum_loop (x # ks) i m k = i + int 0 \<and>
          sint m < sint (calculateSum ((x # ks) ! 0)) \<and>
          (\<forall>l < length (x # ks). sint (calculateSum ((x # ks) ! l)) \<le> sint (calculateSum ((x # ks) ! 0))) \<and>
          (\<forall>l < 0. sint (calculateSum ((x # ks) ! l)) < sint (calculateSum ((x # ks) ! 0)))"
        using h True unfold by (auto simp: nth_Cons' )
      then show ?thesis by blast
    next
      assume "\<exists>j < length ks. findKnightWithMaxSum_loop ks (i + 1) (calculateSum x) i = i + 1 + int j \<and>
          sint (calculateSum x) < sint (calculateSum (ks ! j)) \<and>
          (\<forall>l < length ks. sint (calculateSum (ks ! l)) \<le> sint (calculateSum (ks ! j))) \<and>
          (\<forall>l < j. sint (calculateSum (ks ! l)) < sint (calculateSum (ks ! j)))"
      then obtain j where j: "j < length ks"
          "findKnightWithMaxSum_loop ks (i + 1) (calculateSum x) i = i + 1 + int j"
          "sint (calculateSum x) < sint (calculateSum (ks ! j))"
          "\<forall>l < length ks. sint (calculateSum (ks ! l)) \<le> sint (calculateSum (ks ! j))"
          "\<forall>l < j. sint (calculateSum (ks ! l)) < sint (calculateSum (ks ! j))"
        by blast
      have "Suc j < length (x # ks) \<and> findKnightWithMaxSum_loop (x # ks) i m k = i + int (Suc j) \<and>
          sint m < sint (calculateSum ((x # ks) ! Suc j)) \<and>
          (\<forall>l < length (x # ks). sint (calculateSum ((x # ks) ! l)) \<le> sint (calculateSum ((x # ks) ! Suc j))) \<and>
          (\<forall>l < Suc j. sint (calculateSum ((x # ks) ! l)) < sint (calculateSum ((x # ks) ! Suc j)))"
        using j True unfold by (auto simp: nth_Cons split: nat.splits)
      then show ?thesis by blast
    qed
  next
    case False
    then have unfold: "findKnightWithMaxSum_loop (x # ks) i m k =
        findKnightWithMaxSum_loop ks (i + 1) m k"
      by (simp add: Let_def)
    from Cons.IH [of m "i + 1" k]
    show ?thesis
    proof
      assume "(\<forall>y \<in> set ks. sint (calculateSum y) \<le> sint m) \<and>
              findKnightWithMaxSum_loop ks (i + 1) m k = k"
      with False unfold show ?thesis by auto
    next
      assume "\<exists>j < length ks. findKnightWithMaxSum_loop ks (i + 1) m k = i + 1 + int j \<and>
          sint m < sint (calculateSum (ks ! j)) \<and>
          (\<forall>l < length ks. sint (calculateSum (ks ! l)) \<le> sint (calculateSum (ks ! j))) \<and>
          (\<forall>l < j. sint (calculateSum (ks ! l)) < sint (calculateSum (ks ! j)))"
      then obtain j where j: "j < length ks"
          "findKnightWithMaxSum_loop ks (i + 1) m k = i + 1 + int j"
          "sint m < sint (calculateSum (ks ! j))"
          "\<forall>l < length ks. sint (calculateSum (ks ! l)) \<le> sint (calculateSum (ks ! j))"
          "\<forall>l < j. sint (calculateSum (ks ! l)) < sint (calculateSum (ks ! j))"
        by blast
      have "Suc j < length (x # ks) \<and> findKnightWithMaxSum_loop (x # ks) i m k = i + int (Suc j) \<and>
          sint m < sint (calculateSum ((x # ks) ! Suc j)) \<and>
          (\<forall>l < length (x # ks). sint (calculateSum ((x # ks) ! l)) \<le> sint (calculateSum ((x # ks) ! Suc j))) \<and>
          (\<forall>l < Suc j. sint (calculateSum ((x # ks) ! l)) < sint (calculateSum ((x # ks) ! Suc j)))"
        using j False unfold by (auto simp: nth_Cons split: nat.splits)
      then show ?thesis by blast
    qed
  qed
qed

text \<open>
  Where some knight's sum is above \<open>INT_MIN\<close>, \<open>findKnightWithMaxSum\<close> returns the first
  index at which the sum is greatest.
\<close>

lemma findKnightWithMaxSum_first_maximum:
  assumes "\<exists>x \<in> set knights. sint INT_MIN < sint (calculateSum x)"
  shows "\<exists>j < length knights. findKnightWithMaxSum knights = int j \<and>
      (\<forall>l < length knights. sint (calculateSum (knights ! l)) \<le> sint (calculateSum (knights ! j))) \<and>
      (\<forall>l < j. sint (calculateSum (knights ! l)) < sint (calculateSum (knights ! j)))"
  using findKnightWithMaxSum_loop_spec [of knights INT_MIN 0 "- 1"] assms
  unfolding findKnightWithMaxSum_def by fastforce

text \<open>
  Where every knight's sum is \<open>INT_MIN\<close>, no sum is greater than the initial \<open>maxSum\<close> and the
  function returns the initial index.
\<close>

lemma findKnightWithMaxSum_all_INT_MIN:
  assumes "\<forall>x \<in> set knights. calculateSum x = INT_MIN"
  shows "findKnightWithMaxSum knights = - 1"
  using findKnightWithMaxSum_loop_spec [of knights INT_MIN 0 "- 1"] assms
  unfolding findKnightWithMaxSum_def by fastforce

text \<open>
  C4. For a vector of knights that is not empty, \<open>findKnightWithMaxSum\<close> is to return the
  first index at which the sum of strengths is greatest, and never \<open>-1\<close>. The code does not:
  the tournament of one knight whose only strength is \<open>INT_MIN\<close> is not empty, and
  \<open>findKnightWithMaxSum\<close> returns \<open>-1\<close> for it, which is no index of the vector.
\<close>

theorem findKnightWithMaxSum_single_INT_MIN:
  "findKnightWithMaxSum ([INT_MIN] # []) = - 1 \<and> [INT_MIN] # [] \<noteq> []"
  by (simp add: findKnightWithMaxSum_def calculateSum_def)

lemma findKnightWithMaxSum_example:
  "findKnightWithMaxSum ([1, 2] # [5, 5] # [10, 0] # [- 3] # []) = 1"
  by (simp add: findKnightWithMaxSum_def calculateSum_def INT_MIN_def)

lemma calculateSum_wraps: "calculateSum [2 ^ 31 - 1, 1] = INT_MIN"
  by (simp add: calculateSum_def INT_MIN_def)

section \<open>U.LAB.3: the library catalog\<close>

lemma borrow_book_length: "length (snd (borrow_book books i)) = length books"
  by (induction books) (auto split: prod.splits)

text \<open>
  A successful \<open>borrow_book\<close> changes one book only, the first with the ISBN, and only its
  availability flag.
\<close>

lemma borrow_book_flips_one:
  "fst (borrow_book books i) \<Longrightarrow>
   \<exists>pre book post. books = pre @ book # post \<and> isbn book = i \<and> is_available book \<and>
     (\<forall>b \<in> set pre. isbn b \<noteq> i) \<and>
     snd (borrow_book books i) = pre @ book\<lparr>is_available := False\<rparr> # post"
proof (induction books)
  case Nil
  then show ?case by simp
next
  case (Cons b bs)
  show ?case
  proof (cases "isbn b = i")
    case True
    with Cons.prems have "is_available b" by (simp split: if_splits)
    with True have "b # bs = [] @ b # bs \<and> isbn b = i \<and> is_available b \<and>
        (\<forall>x \<in> set []. isbn x \<noteq> i) \<and>
        snd (borrow_book (b # bs) i) = [] @ b\<lparr>is_available := False\<rparr> # bs"
      by simp
    then show ?thesis by blast
  next
    case False
    with Cons.prems have "fst (borrow_book bs i)" by (simp split: prod.splits)
    from Cons.IH [OF this] obtain pre book post where
      h: "bs = pre @ book # post" "isbn book = i" "is_available book"
         "\<forall>x \<in> set pre. isbn x \<noteq> i"
         "snd (borrow_book bs i) = pre @ book\<lparr>is_available := False\<rparr> # post"
      by blast
    with False have "b # bs = (b # pre) @ book # post \<and> isbn book = i \<and> is_available book \<and>
        (\<forall>x \<in> set (b # pre). isbn x \<noteq> i) \<and>
        snd (borrow_book (b # bs) i) = (b # pre) @ book\<lparr>is_available := False\<rparr> # post"
      by (auto split: prod.splits)
    then show ?thesis by blast
  qed
qed

lemma return_after_borrow:
  "fst (borrow_book books i) \<Longrightarrow>
   return_book (snd (borrow_book books i)) i = (True, books)"
proof (induction books)
  case Nil
  then show ?case by simp
next
  case (Cons b bs)
  show ?case
  proof (cases "isbn b = i")
    case True
    with Cons.prems have "is_available b" by (simp split: if_splits)
    with True show ?thesis by simp
  next
    case False
    with Cons.prems have "fst (borrow_book bs i)" by (simp split: prod.splits)
    from Cons.IH [OF this] False show ?thesis by (auto split: prod.splits)
  qed
qed

text \<open>
  C3. Borrow-then-return is a round trip: whenever \<open>borrow_book\<close> returns true, it has
  cleared the availability flag of one book with the ISBN and changed nothing else, and the
  \<open>return_book\<close> that follows on the same ISBN returns true and gives back exactly the
  vector that was there before the borrow.
\<close>

theorem borrow_then_return_roundtrip:
  assumes "fst (borrow_book books i)"
  shows "return_book (snd (borrow_book books i)) i = (True, books) \<and>
         (\<exists>pre book post. books = pre @ book # post \<and> isbn book = i \<and>
            snd (borrow_book books i) = pre @ book\<lparr>is_available := False\<rparr> # post)"
  using return_after_borrow [OF assms] borrow_book_flips_one [OF assms] by blast

theorem borrow_then_return_roundtrip_witness:
  "fst (borrow_book catalog_demo ''222-2-222-22222-2'') \<and>
   return_book (snd (borrow_book catalog_demo ''222-2-222-22222-2'')) ''222-2-222-22222-2''
     = (True, catalog_demo)"
proof -
  have h: "fst (borrow_book catalog_demo ''222-2-222-22222-2'')"
    by (simp add: catalog_demo_def)
  from h borrow_then_return_roundtrip [OF h] show ?thesis by simp
qed

section \<open>U.LAB.5: geometric shapes\<close>

lemma not_ge_zero_iff: "\<not> ge_zero p \<longleftrightarrow> lt_zero p \<or> p = NaN"
  by (cases p) auto

text \<open>
  C5, as claimed, fails: a NaN is not less than zero, and \<open>setSize1\<close> throws for it.
\<close>

theorem setSize_NaN_counterexample:
  "\<not> lt_zero NaN \<and>
   setSize1 NaN figure_demo = (Inl (invalid_argument ''Size must be greater than zero''), figure_demo)"
  by (simp add: setSize1_def)

text \<open>
  C5, amended. Each of \<open>setSize1\<close>, \<open>setSize2\<close> and \<open>setSize3\<close> throws
  \<open>invalid_argument\<close> exactly when its argument is negative or a NaN, that is when
  \<^verbatim>\<open>p >= 0\<close> is false; zero is accepted. When it throws, the figure is unchanged; when it
  returns, the field it sets holds the argument and nothing else has changed.
\<close>

theorem setSize_validates:
  "(fst (setSize1 p f) = Inl (invalid_argument ''Size must be greater than zero'')
      \<longleftrightarrow> lt_zero p \<or> p = NaN) \<and>
   (fst (setSize2 p f) = Inl (invalid_argument ''Size must be greater than zero'')
      \<longleftrightarrow> lt_zero p \<or> p = NaN) \<and>
   (fst (setSize3 p f) = Inl (invalid_argument ''Size must be greater than zero'')
      \<longleftrightarrow> lt_zero p \<or> p = NaN) \<and>
   (lt_zero p \<or> p = NaN \<longrightarrow>
      snd (setSize1 p f) = f \<and> snd (setSize2 p f) = f \<and> snd (setSize3 p f) = f) \<and>
   (\<not> (lt_zero p \<or> p = NaN) \<longrightarrow>
      setSize1 p f = (Inr (), f\<lparr>size1 := p\<rparr>) \<and>
      setSize2 p f = (Inr (), f\<lparr>size2 := p\<rparr>) \<and>
      setSize3 p f = (Inr (), f\<lparr>size3 := p\<rparr>))"
  using not_ge_zero_iff [of p]
  by (auto simp: setSize1_def setSize2_def setSize3_def)

theorem setSize_validates_witness:
  "lt_zero (Finite (- 1)) \<and>
   fst (setSize2 (Finite (- 1)) figure_demo) = Inl (invalid_argument ''Size must be greater than zero'') \<and>
   snd (setSize2 (Finite (- 1)) figure_demo) = figure_demo \<and>
   \<not> (lt_zero (Finite 0) \<or> Finite 0 = NaN) \<and>
   setSize2 (Finite 0) figure_demo = (Inr (), \<lparr>size1 = Finite 3, size2 = Finite 0, size3 = Finite 5\<rparr>)"
proof -
  have neg: "lt_zero (Finite (- 1))" by simp
  have zero: "\<not> (lt_zero (Finite 0) \<or> Finite 0 = NaN)" by simp
  have upd: "figure_demo\<lparr>size2 := Finite 0\<rparr> = \<lparr>size1 = Finite 3, size2 = Finite 0, size3 = Finite 5\<rparr>"
    by (simp add: figure_demo_def)
  from setSize_validates [of "Finite (- 1)" figure_demo] setSize_validates [of "Finite 0" figure_demo]
    neg zero upd
  show ?thesis by simp
qed

subsection \<open>The capacity of the collection\<close>

declare generateRandomFigures_loop.simps [simp del]

lemma generateRandomFigures_loop_full:
  "maxSize gd \<le> length (figures gd) \<Longrightarrow>
   generateRandomFigures_loop i cnt tried fallback gd = (Inr (), gd)"
  by (subst generateRandomFigures_loop.simps) simp

lemma generateRandomFigures_loop_tried:
  "i < cnt \<Longrightarrow> length (figures gd) < maxSize gd \<Longrightarrow> tried i = Inr figure \<Longrightarrow>
   generateRandomFigures_loop i cnt tried fallback gd =
     generateRandomFigures_loop (Suc i) cnt tried fallback (gd\<lparr>figures := figures gd @ [figure]\<rparr>)"
  by (subst generateRandomFigures_loop.simps) simp

lemma generateRandomFigures_loop_fallback:
  "i < cnt \<Longrightarrow> length (figures gd) < maxSize gd \<Longrightarrow> tried i = Inl e \<Longrightarrow>
   fallback i = Inr figure \<Longrightarrow>
   generateRandomFigures_loop i cnt tried fallback gd =
     generateRandomFigures_loop (Suc i) cnt tried fallback (gd\<lparr>figures := figures gd @ [figure]\<rparr>)"
  by (subst generateRandomFigures_loop.simps) simp

lemma generateRandomFigures_loop_throws:
  "i < cnt \<Longrightarrow> length (figures gd) < maxSize gd \<Longrightarrow> tried i = Inl e \<Longrightarrow>
   fallback i = Inl e' \<Longrightarrow>
   generateRandomFigures_loop i cnt tried fallback gd = (Inl e', gd)"
  by (subst generateRandomFigures_loop.simps) simp

lemma generateRandomFigures_loop_done:
  "\<not> (i < cnt \<and> length (figures gd) < maxSize gd) \<Longrightarrow>
   generateRandomFigures_loop i cnt tried fallback gd = (Inr (), gd)"
  by (subst generateRandomFigures_loop.simps) (simp only: if_False)

lemma generateRandomFigures_loop_bounds:
  "maxSize (snd (generateRandomFigures_loop i cnt tried fallback gd)) = maxSize gd \<and>
   length (figures (snd (generateRandomFigures_loop i cnt tried fallback gd)))
     \<le> max (length (figures gd)) (maxSize gd) \<and>
   prefix (figures gd) (figures (snd (generateRandomFigures_loop i cnt tried fallback gd)))"
proof (induction i cnt tried fallback gd rule: generateRandomFigures_loop.induct)
  case (1 i cnt tried fallback gd)
  show ?case
  proof (cases "i < cnt \<and> length (figures gd) < maxSize gd")
    case False
    then show ?thesis
      by (simp add: generateRandomFigures_loop_done)
  next
    case guard: True
    show ?thesis
    proof (cases "tried i")
      case (Inr figure)
      from guard Inr have step: "generateRandomFigures_loop i cnt tried fallback gd =
          generateRandomFigures_loop (Suc i) cnt tried fallback (gd\<lparr>figures := figures gd @ [figure]\<rparr>)"
        by (simp add: generateRandomFigures_loop_tried)
      from "1.IH"(2) [OF guard Inr] guard show ?thesis
        unfolding step by (auto simp: prefix_def)
    next
      case (Inl e)
      show ?thesis
      proof (cases "fallback i")
        case (Inr figure)
        from guard Inl Inr have step: "generateRandomFigures_loop i cnt tried fallback gd =
            generateRandomFigures_loop (Suc i) cnt tried fallback (gd\<lparr>figures := figures gd @ [figure]\<rparr>)"
          by (simp add: generateRandomFigures_loop_fallback)
        from "1.IH"(1) [OF guard Inl Inr] guard show ?thesis
          unfolding step by (auto simp: prefix_def)
      next
        case inner: (Inl e')
        with guard Inl show ?thesis
          by (simp add: generateRandomFigures_loop_throws)
      qed
    qed
  qed
qed

lemma within_capacity_apply:
  assumes "std_sort_contract compareBySquare srt" and "within_capacity n gd"
  shows "within_capacity n (Geometry_Dash_apply srt c gd)"
proof (cases c)
  case (AddFigure figure)
  with assms(2) show ?thesis by (auto simp: within_capacity_def addFigure_def)
next
  case (RemoveFigure idx)
  with assms(2) show ?thesis by (auto simp: within_capacity_def removeFigure_def)
next
  case Clear
  with assms(2) show ?thesis by (auto simp: within_capacity_def clear_def)
next
  case SortBySquare
  with assms(2) std_sort_contract_length [OF assms(1)] show ?thesis
    by (auto simp: within_capacity_def sortBySquare_def)
next
  case (GenerateRandomFigures cnt tried fallback)
  with assms(2) generateRandomFigures_loop_bounds [of 0 cnt tried fallback gd] show ?thesis
    by (auto simp: within_capacity_def generateRandomFigures_def)
qed

lemma within_capacity_run:
  assumes "std_sort_contract compareBySquare srt"
  shows "within_capacity n gd \<Longrightarrow> within_capacity n (Geometry_Dash_run srt ops gd)"
  unfolding Geometry_Dash_run_def
  by (induction ops arbitrary: gd) (simp_all add: within_capacity_apply [OF assms])

lemma sort_by_exact_area_contract:
  "std_sort_contract (\<lambda>a b. exact_area a < exact_area b) sort_by_exact_area"
  unfolding sort_by_exact_area_def by (rule sort_key_contract)

lemma Geometry_Dash_run_demo:
  "Geometry_Dash_run sort_by_exact_area Geometry_Dash_ops_demo (Geometry_Dash_new 2) =
     Geometry_Dash_full_demo"
  by (simp add: Geometry_Dash_full_demo_def Geometry_Dash_run_def Geometry_Dash_ops_demo_def Geometry_Dash_new_def
      generateRandomFigures_def generateRandomFigures_loop.simps addFigure_def removeFigure_def
      sortBySquare_def sort_by_exact_area_def exact_area_def unit_square_def)

text \<open>
  C9. A collection built by the constructor with capacity \<open>n\<close> (15 by default) holds at most
  \<open>n\<close> figures after any sequence of calls. \<open>addFigure\<close> appends the figure and returns true
  exactly when the collection holds fewer figures than its capacity, and otherwise returns
  false and changes nothing. \<open>generateRandomFigures\<close> only appends, never beyond the capacity,
  and appends nothing to a collection that is full.
\<close>

theorem Geometry_Dash_capacity:
  assumes "std_sort_contract compareBySquare srt"
  shows "length (figures (Geometry_Dash_run srt ops (Geometry_Dash_new n))) \<le> n \<and>
         maxSize (Geometry_Dash_run srt ops (Geometry_Dash_new n)) = n \<and>
         maxSize Geometry_Dash_default = 15 \<and>
         (fst (addFigure figure gd) \<longleftrightarrow> length (figures gd) < maxSize gd) \<and>
         (length (figures gd) < maxSize gd \<longrightarrow>
            addFigure figure gd = (True, gd\<lparr>figures := figures gd @ [figure]\<rparr>)) \<and>
         (\<not> length (figures gd) < maxSize gd \<longrightarrow> addFigure figure gd = (False, gd)) \<and>
         prefix (figures gd) (figures (snd (generateRandomFigures cnt tried fallback gd))) \<and>
         length (figures (snd (generateRandomFigures cnt tried fallback gd)))
           \<le> max (length (figures gd)) (maxSize gd) \<and>
         (maxSize gd \<le> length (figures gd) \<longrightarrow>
            generateRandomFigures cnt tried fallback gd = (Inr (), gd))"
proof -
  have "within_capacity n (Geometry_Dash_new n)"
    by (simp add: within_capacity_def Geometry_Dash_new_def)
  from within_capacity_run [OF assms this, of ops]
  have run: "length (figures (Geometry_Dash_run srt ops (Geometry_Dash_new n))) \<le> n \<and>
         maxSize (Geometry_Dash_run srt ops (Geometry_Dash_new n)) = n"
    by (simp add: within_capacity_def)
  have dflt: "maxSize Geometry_Dash_default = 15"
    by (simp add: Geometry_Dash_default_def Geometry_Dash_new_def)
  have add: "(fst (addFigure figure gd) \<longleftrightarrow> length (figures gd) < maxSize gd) \<and>
         (length (figures gd) < maxSize gd \<longrightarrow>
            addFigure figure gd = (True, gd\<lparr>figures := figures gd @ [figure]\<rparr>)) \<and>
         (\<not> length (figures gd) < maxSize gd \<longrightarrow> addFigure figure gd = (False, gd))"
    by (simp add: addFigure_def)
  have gen: "prefix (figures gd) (figures (snd (generateRandomFigures cnt tried fallback gd))) \<and>
         length (figures (snd (generateRandomFigures cnt tried fallback gd)))
           \<le> max (length (figures gd)) (maxSize gd)"
    using generateRandomFigures_loop_bounds [of 0 cnt tried fallback gd]
    by (simp add: generateRandomFigures_def)
  have full: "maxSize gd \<le> length (figures gd) \<longrightarrow>
            generateRandomFigures cnt tried fallback gd = (Inr (), gd)"
    by (simp add: generateRandomFigures_def generateRandomFigures_loop_full)
  from run dflt add gen full show ?thesis by blast
qed

theorem Geometry_Dash_capacity_witness:
  "std_sort_contract (\<lambda>a b. exact_area a < exact_area b) sort_by_exact_area \<and>
   Geometry_Dash_run sort_by_exact_area Geometry_Dash_ops_demo (Geometry_Dash_new 2)
     = Geometry_Dash_full_demo \<and>
   length (figures Geometry_Dash_full_demo) \<le> 2 \<and>
   \<not> length (figures Geometry_Dash_full_demo) < maxSize Geometry_Dash_full_demo \<and>
   addFigure unit_square Geometry_Dash_full_demo = (False, Geometry_Dash_full_demo) \<and>
   maxSize Geometry_Dash_full_demo \<le> length (figures Geometry_Dash_full_demo) \<and>
   generateRandomFigures 5 (\<lambda>i. Inr unit_square) (\<lambda>i. Inr unit_square) Geometry_Dash_full_demo
     = (Inr (), Geometry_Dash_full_demo) \<and>
   length (figures (Geometry_Dash_new 2)) < maxSize (Geometry_Dash_new 2) \<and>
   addFigure unit_square (Geometry_Dash_new 2) = (True, \<lparr>figures = [unit_square], maxSize = 2\<rparr>)"
proof -
  have full: "\<not> length (figures Geometry_Dash_full_demo) < maxSize Geometry_Dash_full_demo"
    "maxSize Geometry_Dash_full_demo \<le> length (figures Geometry_Dash_full_demo)"
    by (simp_all add: Geometry_Dash_full_demo_def)
  have room: "length (figures (Geometry_Dash_new 2)) < maxSize (Geometry_Dash_new 2)"
    "(Geometry_Dash_new 2)\<lparr>figures := figures (Geometry_Dash_new 2) @ [unit_square]\<rparr>
       = \<lparr>figures = [unit_square], maxSize = 2\<rparr>"
    by (simp_all add: Geometry_Dash_new_def)
  from Geometry_Dash_capacity [OF sort_by_exact_area_contract,
      where ops = Geometry_Dash_ops_demo and n = 2 and figure = unit_square
        and gd = Geometry_Dash_full_demo and cnt = 5
        and tried = "\<lambda>i. Inr unit_square" and fallback = "\<lambda>i. Inr unit_square"]
    Geometry_Dash_capacity [OF sort_by_exact_area_contract,
      where figure = unit_square and gd = "Geometry_Dash_new 2"]
    full room sort_by_exact_area_contract Geometry_Dash_run_demo
  show ?thesis by simp
qed

section \<open>U.LAB.8: the media library\<close>

subsection \<open>The repository\<close>

lemma repo_inv_new: "repo_inv InMemoryMediaRepository_new"
  by (simp add: repo_inv_def InMemoryMediaRepository_new_def)

lemma repo_inv_addMedia:
  assumes "repo_inv r"
  shows "repo_inv (snd (addMedia media r))"
proof (cases media)
  case None
  with assms show ?thesis by (simp add: addMedia_def)
next
  case (Some m)
  show ?thesis
  proof (cases "index r (getId m) = None")
    case False
    with Some assms show ?thesis by (simp add: addMedia_def)
  next
    case True
    let ?r' = "r\<lparr>index := (index r)(getId m \<mapsto> length (storage r)), storage := storage r @ [Some m]\<rparr>"
    from Some True have r': "snd (addMedia media r) = ?r'"
      by (simp add: addMedia_def)
    have a: "idx < length (storage ?r') \<and> (\<exists>m'. storage ?r' ! idx = Some m' \<and> getId m' = i)"
      if "index ?r' i = Some idx" for i idx
    proof (cases "i = getId m")
      case True
      with that have "idx = length (storage r)" by simp
      with True show ?thesis by simp
    next
      case False
      with that have "index r i = Some idx" by simp
      with assms have "idx < length (storage r)" "\<exists>m'. storage r ! idx = Some m' \<and> getId m' = i"
        unfolding repo_inv_def by blast+
      then show ?thesis by (simp add: nth_append)
    qed
    have b: "index ?r' (getId m') = Some idx"
      if "idx < length (storage ?r')" "storage ?r' ! idx = Some m'" for idx m'
    proof (cases "idx < length (storage r)")
      case True
      with that have "storage r ! idx = Some m'" by (simp add: nth_append)
      with assms True have old: "index r (getId m') = Some idx"
        unfolding repo_inv_def by blast
      with \<open>index r (getId m) = None\<close> have "getId m' \<noteq> getId m" by auto
      with old show ?thesis by simp
    next
      case False
      with that have "idx = length (storage r)" by simp
      with that show ?thesis by simp
    qed
    from a b show ?thesis
      unfolding r' repo_inv_def by blast
  qed
qed

lemma repo_inv_removeMedia:
  assumes "repo_inv r"
  shows "repo_inv (snd (removeMedia i r))"
proof (cases "index r i")
  case None
  with assms show ?thesis by (simp add: removeMedia_def)
next
  case (Some idx)
  let ?r' = "r\<lparr>storage := (storage r)[idx := None], index := (index r)(i := None)\<rparr>"
  from Some have r': "snd (removeMedia i r) = ?r'"
    by (simp add: removeMedia_def)
  from assms Some obtain mi where idx: "idx < length (storage r)" "storage r ! idx = Some mi" "getId mi = i"
    unfolding repo_inv_def by blast
  have a: "jdx < length (storage ?r') \<and> (\<exists>m'. storage ?r' ! jdx = Some m' \<and> getId m' = j)"
    if "index ?r' j = Some jdx" for j jdx
  proof -
    from that have ji: "j \<noteq> i" and old: "index r j = Some jdx"
      by (auto split: if_splits)
    with assms obtain mj where jdx: "jdx < length (storage r)" "storage r ! jdx = Some mj" "getId mj = j"
      unfolding repo_inv_def by blast
    with idx ji have "jdx \<noteq> idx" by auto
    with jdx show ?thesis by simp
  qed
  have b: "index ?r' (getId m') = Some jdx"
    if "jdx < length (storage ?r')" "storage ?r' ! jdx = Some m'" for jdx m'
  proof -
    from that idx have ne: "jdx \<noteq> idx" by auto
    with that have "jdx < length (storage r)" "storage r ! jdx = Some m'" by simp_all
    with assms have old: "index r (getId m') = Some jdx"
      unfolding repo_inv_def by blast
    with Some ne have "getId m' \<noteq> i" by auto
    with old show ?thesis by simp
  qed
  from a b show ?thesis
    unfolding r' repo_inv_def by blast
qed

lemma repo_inv_run: "repo_inv r \<Longrightarrow> repo_inv (repository_run ops r)"
  unfolding repository_run_def
proof (induction ops arbitrary: r)
  case Nil
  then show ?case by simp
next
  case (Cons c ops)
  from Cons.prems have "repo_inv (repository_apply c r)"
    by (cases c) (simp_all add: repo_inv_addMedia repo_inv_removeMedia)
  from Cons.IH [OF this] show ?case by simp
qed

lemma repo_inv_reachable: "repo_inv (repository_run ops InMemoryMediaRepository_new)"
  by (rule repo_inv_run [OF repo_inv_new])

lemma repo_inv_findMedia:
  assumes "repo_inv r"
  shows "exists_media i r \<longleftrightarrow> (\<exists>m. findMedia i r = Some m \<and> getId m = i)"
proof (cases "index r i")
  case None
  then show ?thesis by (simp add: exists_media_def findMedia_def)
next
  case (Some idx)
  with assms have "idx < length (storage r)" "\<exists>m. storage r ! idx = Some m \<and> getId m = i"
    unfolding repo_inv_def by blast+
  with Some show ?thesis by (simp add: exists_media_def findMedia_def)
qed

lemma repo_inv_findMedia_None:
  assumes "repo_inv r"
  shows "findMedia i r = None \<longleftrightarrow> \<not> exists_media i r"
  using repo_inv_findMedia [OF assms, of i]
  by (cases "findMedia i r") (auto simp: exists_media_def findMedia_def split: option.splits)

lemma set_map_filter_pointers:
  "set (List.map_filter (\<lambda>ptr. ptr) xs) = {m. Some m \<in> set xs}"
  by (induction xs) (auto split: option.splits)

lemma set_getAllMedia: "set (getAllMedia r) = {m. Some m \<in> set (storage r)}"
  by (simp add: getAllMedia_def set_map_filter_pointers)

lemma repo_inv_getAllMedia_ids:
  assumes "repo_inv r"
  shows "set (map getId (getAllMedia r)) = {i. exists_media i r}"
proof (intro set_eqI iffI)
  fix i
  assume "i \<in> set (map getId (getAllMedia r))"
  then obtain m where "Some m \<in> set (storage r)" "getId m = i"
    by (auto simp: set_getAllMedia)
  then obtain idx where "idx < length (storage r)" "storage r ! idx = Some m"
    by (auto simp: in_set_conv_nth)
  with assms \<open>getId m = i\<close> have "index r i = Some idx"
    unfolding repo_inv_def by blast
  then show "i \<in> {i. exists_media i r}" by (simp add: exists_media_def)
next
  fix i
  assume "i \<in> {i. exists_media i r}"
  then obtain idx where "index r i = Some idx" by (auto simp: exists_media_def)
  with assms obtain m where "idx < length (storage r)" "storage r ! idx = Some m" "getId m = i"
    unfolding repo_inv_def by blast
  then have "Some m \<in> set (storage r)" by (metis nth_mem)
  with \<open>getId m = i\<close> show "i \<in> set (map getId (getAllMedia r))"
    by (force simp: set_getAllMedia)
qed

lemma distinct_ids_map_filter:
  "(\<forall>j k a b. j < k \<and> k < length xs \<and> xs ! j = Some a \<and> xs ! k = Some b \<longrightarrow> f a \<noteq> f b) \<Longrightarrow>
   distinct (map f (List.map_filter (\<lambda>ptr. ptr) xs))"
proof (induction xs)
  case Nil
  then show ?case by simp
next
  case (Cons x xs)
  have tl: "\<forall>j k a b. j < k \<and> k < length xs \<and> xs ! j = Some a \<and> xs ! k = Some b \<longrightarrow> f a \<noteq> f b"
  proof (intro allI impI)
    fix j k a b
    assume "j < k \<and> k < length xs \<and> xs ! j = Some a \<and> xs ! k = Some b"
    then have "Suc j < Suc k \<and> Suc k < length (x # xs) \<and> (x # xs) ! Suc j = Some a \<and> (x # xs) ! Suc k = Some b"
      by simp
    with Cons.prems show "f a \<noteq> f b" by blast
  qed
  from Cons.IH [OF tl] have IH: "distinct (map f (List.map_filter (\<lambda>ptr. ptr) xs))" .
  show ?case
  proof (cases x)
    case None
    with IH show ?thesis by simp
  next
    case (Some a)
    have "f a \<noteq> f b" if "b \<in> set (List.map_filter (\<lambda>ptr. ptr) xs)" for b
    proof -
      from that have "Some b \<in> set xs" by (simp add: set_map_filter_pointers)
      then obtain k where "k < length xs" "xs ! k = Some b" by (auto simp: in_set_conv_nth)
      with Some have "0 < Suc k \<and> Suc k < length (x # xs) \<and> (x # xs) ! 0 = Some a \<and> (x # xs) ! Suc k = Some b"
        by simp
      with Cons.prems show ?thesis by blast
    qed
    with IH Some show ?thesis by auto
  qed
qed

lemma repo_inv_getAllMedia_distinct:
  assumes "repo_inv r"
  shows "distinct (map getId (getAllMedia r))"
  unfolding getAllMedia_def
proof (rule distinct_ids_map_filter, intro allI impI)
  fix j k a b
  assume h: "j < k \<and> k < length (storage r) \<and> storage r ! j = Some a \<and> storage r ! k = Some b"
  then have "j < length (storage r)" by simp
  with assms h have "index r (getId a) = Some j"
    unfolding repo_inv_def by blast
  moreover from assms h have "index r (getId b) = Some k"
    unfolding repo_inv_def by blast
  ultimately show "getId a \<noteq> getId b" using h by auto
qed

lemma repository_run_demo:
  "repository_run repository_ops_demo InMemoryMediaRepository_new =
     \<lparr>storage = [Some (Book_media ''B101'' ''The Martian'' ''Andy Weir''), None,
                 Some (Book_media ''B102'' ''Neuromancer'' ''William Gibson'')],
      index = [''B101'' \<mapsto> 0, ''B102'' \<mapsto> 2]\<rparr>"
  by (auto simp: repository_run_def repository_ops_demo_def InMemoryMediaRepository_new_def
      addMedia_def removeMedia_def fun_eq_iff)

text \<open>
  C10. In a repository reached from the empty one by \<open>addMedia\<close> and \<open>removeMedia\<close> calls,
  \<open>exists\<close> is true for an id exactly when \<open>findMedia\<close> returns a media with that id, and
  the ids of the media that \<open>getAllMedia\<close> returns are the ids in the index, each once.
\<close>

theorem repository_index_consistent:
  "(exists_media i (repository_run ops InMemoryMediaRepository_new) \<longleftrightarrow>
      (\<exists>m. findMedia i (repository_run ops InMemoryMediaRepository_new) = Some m \<and> getId m = i)) \<and>
   set (map getId (getAllMedia (repository_run ops InMemoryMediaRepository_new)))
     = dom (index (repository_run ops InMemoryMediaRepository_new)) \<and>
   distinct (map getId (getAllMedia (repository_run ops InMemoryMediaRepository_new)))"
proof -
  let ?r = "repository_run ops InMemoryMediaRepository_new"
  have inv: "repo_inv ?r" by (rule repo_inv_reachable)
  have "{i. exists_media i ?r} = dom (index ?r)"
    by (auto simp: exists_media_def)
  with repo_inv_findMedia [OF inv, of i] repo_inv_getAllMedia_ids [OF inv]
    repo_inv_getAllMedia_distinct [OF inv]
  show ?thesis by simp
qed

theorem repository_index_consistent_witness:
  "exists_media ''B102'' (repository_run repository_ops_demo InMemoryMediaRepository_new) \<and>
   findMedia ''B102'' (repository_run repository_ops_demo InMemoryMediaRepository_new)
     = Some (Book_media ''B102'' ''Neuromancer'' ''William Gibson'') \<and>
   \<not> exists_media ''A201'' (repository_run repository_ops_demo InMemoryMediaRepository_new) \<and>
   findMedia ''A201'' (repository_run repository_ops_demo InMemoryMediaRepository_new) = None \<and>
   map getId (getAllMedia (repository_run repository_ops_demo InMemoryMediaRepository_new))
     = [''B101'', ''B102''] \<and>
   dom (index (repository_run repository_ops_demo InMemoryMediaRepository_new))
     = {''B101'', ''B102''}"
proof -
  have ev: "findMedia ''B102'' (repository_run repository_ops_demo InMemoryMediaRepository_new)
     = Some (Book_media ''B102'' ''Neuromancer'' ''William Gibson'')"
    "findMedia ''A201'' (repository_run repository_ops_demo InMemoryMediaRepository_new) = None"
    "map getId (getAllMedia (repository_run repository_ops_demo InMemoryMediaRepository_new))
     = [''B101'', ''B102'']"
    by (simp_all add: repository_run_demo findMedia_def getAllMedia_def)
  from repository_index_consistent [of "''B102''" repository_ops_demo]
    repository_index_consistent [of "''A201''" repository_ops_demo] ev
  show ?thesis by auto
qed

subsection \<open>Issuing and returning\<close>

lemma hasMedia_iff: "hasMedia mediaId u \<longleftrightarrow> mediaId \<in> set (issuedMediaIds u)"
  by (auto simp: hasMedia_def find_None_iff)

lemma isMediaIssued_loop_iff:
  "isMediaIssued_loop mediaId ps \<longleftrightarrow> (\<exists>p \<in> set ps. mediaId \<in> set (issuedMediaIds (snd p)))"
  by (induction ps) (auto simp: hasMedia_iff)

lemma isMediaIssued_iff:
  "isMediaIssued mediaId um \<longleftrightarrow> (\<exists>p \<in> set (users um). mediaId \<in> set (issuedMediaIds (snd p)))"
  by (simp add: isMediaIssued_def isMediaIssued_loop_iff)

lemma issueMediaToUser_iff:
  assumes "repo_inv (mediaRepo lib)"
  shows "fst (issueMediaToUser mediaId userId lib) \<longleftrightarrow>
     exists_user userId (userManager lib) \<and> exists_media mediaId (mediaRepo lib) \<and>
     \<not> isMediaIssued mediaId (userManager lib)"
  using repo_inv_findMedia_None [OF assms, of mediaId]
  by (auto simp: issueMediaToUser_def exists_user_def getUser_def split: option.splits)

text \<open>With distinct keys, the holders of a media id are read off the map.\<close>

lemma at_most_one_holder_map_of:
  assumes "users_wf um"
  shows "at_most_one_holder um \<longleftrightarrow>
     (\<forall>k1 k2 u1 u2 m. map_of (users um) k1 = Some u1 \<and> map_of (users um) k2 = Some u2 \<and>
        m \<in> set (issuedMediaIds u1) \<and> m \<in> set (issuedMediaIds u2) \<longrightarrow> k1 = k2)"
proof -
  from assms have d: "distinct (map fst (users um))" by (simp add: users_wf_def)
  have mem: "(k, u) \<in> set (users um) \<longleftrightarrow> map_of (users um) k = Some u" for k u
    using d by simp
  show ?thesis
  proof
    assume h: "at_most_one_holder um"
    show "\<forall>k1 k2 u1 u2 m. map_of (users um) k1 = Some u1 \<and> map_of (users um) k2 = Some u2 \<and>
        m \<in> set (issuedMediaIds u1) \<and> m \<in> set (issuedMediaIds u2) \<longrightarrow> k1 = k2"
    proof (intro allI impI)
      fix k1 k2 u1 u2 m
      assume a: "map_of (users um) k1 = Some u1 \<and> map_of (users um) k2 = Some u2 \<and>
        m \<in> set (issuedMediaIds u1) \<and> m \<in> set (issuedMediaIds u2)"
      then have "(k1, u1) \<in> set (users um)" "(k2, u2) \<in> set (users um)"
        by (simp_all add: mem)
      with h a show "k1 = k2"
        unfolding at_most_one_holder_def by fastforce
    qed
  next
    assume h: "\<forall>k1 k2 u1 u2 m. map_of (users um) k1 = Some u1 \<and> map_of (users um) k2 = Some u2 \<and>
        m \<in> set (issuedMediaIds u1) \<and> m \<in> set (issuedMediaIds u2) \<longrightarrow> k1 = k2"
    show "at_most_one_holder um"
      unfolding at_most_one_holder_def
    proof (intro ballI allI impI)
      fix p q m
      assume pq: "p \<in> set (users um)" "q \<in> set (users um)"
        and m: "m \<in> set (issuedMediaIds (snd p)) \<and> m \<in> set (issuedMediaIds (snd q))"
      from pq have "map_of (users um) (fst p) = Some (snd p)" "map_of (users um) (fst q) = Some (snd q)"
        using mem [of "fst p" "snd p"] mem [of "fst q" "snd q"] by simp_all
      with h m show "fst p = fst q" by blast
    qed
  qed
qed

lemma users_wf_put_user: "users_wf um \<Longrightarrow> users_wf (put_user i u um)"
  by (simp add: users_wf_def put_user_def distinct_update)

lemma map_of_put_user: "map_of (users (put_user i u um)) = (map_of (users um))(i \<mapsto> u)"
  by (simp add: put_user_def update_conv')

lemma holder_issue:
  assumes wf: "users_wf um" and inv: "at_most_one_holder um"
    and user: "getUser userId um = Some user" and free: "\<not> isMediaIssued mediaId um"
  shows "at_most_one_holder (put_user userId (issueMedia mediaId user) um)"
proof -
  from wf have d: "distinct (map fst (users um))" by (simp add: users_wf_def)
  have nobody: "mediaId \<notin> set (issuedMediaIds u)" if "map_of (users um) k = Some u" for k u
  proof -
    from that have "(k, u) \<in> set (users um)" by (rule map_of_SomeD)
    with free show ?thesis by (force simp: isMediaIssued_iff)
  qed
  from inv have old: "\<And>k1 k2 u1 u2 m. map_of (users um) k1 = Some u1 \<Longrightarrow>
      map_of (users um) k2 = Some u2 \<Longrightarrow> m \<in> set (issuedMediaIds u1) \<Longrightarrow>
      m \<in> set (issuedMediaIds u2) \<Longrightarrow> k1 = k2"
    unfolding at_most_one_holder_map_of [OF wf] by blast
  from user have u: "map_of (users um) userId = Some user" by (simp add: getUser_def)
  let ?um' = "put_user userId (issueMedia mediaId user) um"
  have "k1 = k2"
    if h: "map_of (users ?um') k1 = Some u1" "map_of (users ?um') k2 = Some u2"
      "m \<in> set (issuedMediaIds u1)" "m \<in> set (issuedMediaIds u2)" for k1 k2 u1 u2 m
  proof (cases "m = mediaId")
    case True
    have "k = userId" if "map_of (users ?um') k = Some v" "mediaId \<in> set (issuedMediaIds v)" for k v
    proof (rule ccontr)
      assume "k \<noteq> userId"
      with that(1) have "map_of (users um) k = Some v" by (simp add: map_of_put_user)
      from nobody [OF this] that(2) show False by simp
    qed
    with h True show ?thesis by blast
  next
    case False
    have origin: "\<exists>v'. map_of (users um) k = Some v' \<and> m \<in> set (issuedMediaIds v')"
      if "map_of (users ?um') k = Some v" "m \<in> set (issuedMediaIds v)" for k v
    proof (cases "k = userId")
      case True
      with that(1) have "v = issueMedia mediaId user" by (simp add: map_of_put_user)
      with that(2) False have "m \<in> set (issuedMediaIds user)" by (simp add: issueMedia_def)
      with u True show ?thesis by simp
    next
      case False
      with that show ?thesis by (simp add: map_of_put_user)
    qed
    from origin [OF h(1) h(3)] origin [OF h(2) h(4)] old show ?thesis by blast
  qed
  then show ?thesis
    unfolding at_most_one_holder_map_of [OF users_wf_put_user [OF wf]] by blast
qed

lemma holder_return:
  assumes wf: "users_wf um" and inv: "at_most_one_holder um"
    and user: "getUser userId um = Some user"
  shows "at_most_one_holder (put_user userId (returnMedia mediaId user) um)"
proof -
  from inv have old: "\<And>k1 k2 u1 u2 m. map_of (users um) k1 = Some u1 \<Longrightarrow>
      map_of (users um) k2 = Some u2 \<Longrightarrow> m \<in> set (issuedMediaIds u1) \<Longrightarrow>
      m \<in> set (issuedMediaIds u2) \<Longrightarrow> k1 = k2"
    unfolding at_most_one_holder_map_of [OF wf] by blast
  from user have u: "map_of (users um) userId = Some user" by (simp add: getUser_def)
  let ?um' = "put_user userId (returnMedia mediaId user) um"
  have origin: "\<exists>v'. map_of (users um) k = Some v' \<and> m \<in> set (issuedMediaIds v')"
    if "map_of (users ?um') k = Some v" "m \<in> set (issuedMediaIds v)" for k v m
  proof (cases "k = userId")
    case True
    with that(1) have "v = returnMedia mediaId user" by (simp add: map_of_put_user)
    with that(2) have "m \<in> set (issuedMediaIds user)" by (simp add: returnMedia_def)
    with u True show ?thesis by simp
  next
    case False
    with that show ?thesis by (simp add: map_of_put_user)
  qed
  have "k1 = k2"
    if h: "map_of (users ?um') k1 = Some u1" "map_of (users ?um') k2 = Some u2"
      "m \<in> set (issuedMediaIds u1)" "m \<in> set (issuedMediaIds u2)" for k1 k2 u1 u2 m
    using origin [OF h(1) h(3)] origin [OF h(2) h(4)] old by blast
  then show ?thesis
    unfolding at_most_one_holder_map_of [OF users_wf_put_user [OF wf]] by blast
qed

lemma library_inv_apply:
  assumes "library_inv lib"
  shows "library_inv (Library_apply c lib)"
proof (cases c)
  case (IssueMediaToUser mediaId userId)
  with assms show ?thesis
    by (auto simp: library_inv_def issueMediaToUser_def users_wf_put_user holder_issue
        split: option.splits)
next
  case (ReturnMediaFromUser mediaId userId)
  with assms show ?thesis
    by (auto simp: library_inv_def returnMediaFromUser_def users_wf_put_user holder_return
        split: option.splits)
qed

lemma library_inv_run: "library_inv lib \<Longrightarrow> library_inv (Library_run ops lib)"
  unfolding Library_run_def
  by (induction ops arbitrary: lib) (simp_all add: library_inv_apply)

lemma mediaRepo_apply: "mediaRepo (Library_apply c lib) = mediaRepo lib"
  by (cases c) (auto simp: issueMediaToUser_def returnMediaFromUser_def split: option.splits)

lemma mediaRepo_run: "mediaRepo (Library_run ops lib) = mediaRepo lib"
  unfolding Library_run_def
  by (induction ops arbitrary: lib) (simp_all add: mediaRepo_apply)

lemma library_demo_repo:
  "mediaRepo library_demo =
     repository_run
       [AddMedia (Some (Book_media ''B101'' ''The Martian'' ''Andy Weir'')),
        AddMedia (Some (Audio_media ''A201'' ''Dune Audiobook'' 30000)),
        AddMedia (Some (Book_media ''B102'' ''Neuromancer'' ''William Gibson''))]
       InMemoryMediaRepository_new"
  by (simp add: library_demo_def repository_demo_def)

lemma library_demo_users:
  "users_wf (userManager library_demo)" "at_most_one_holder (userManager library_demo)"
  by (simp_all add: library_demo_def users_wf_def at_most_one_holder_def)

lemma repository_demo_value:
  "repository_demo =
     \<lparr>storage = [Some (Book_media ''B101'' ''The Martian'' ''Andy Weir''),
                 Some (Audio_media ''A201'' ''Dune Audiobook'' 30000),
                 Some (Book_media ''B102'' ''Neuromancer'' ''William Gibson'')],
      index = [''B101'' \<mapsto> 0, ''A201'' \<mapsto> 1, ''B102'' \<mapsto> 2]\<rparr>"
  by (simp add: repository_demo_def repository_run_def InMemoryMediaRepository_new_def
      addMedia_def numeral_2_eq_2)

lemma Library_run_demo:
  "userManager (Library_run Library_ops_demo library_demo) =
     \<lparr>users =
        [(''U001'', \<lparr>user_id = ''U001'', user_name = ''Alice'', issuedMediaIds = []\<rparr>),
         (''U002'', \<lparr>user_id = ''U002'', user_name = ''Bob'',
                    issuedMediaIds = [''A201'', ''B101'']\<rparr>)]\<rparr>"
  by (simp add: Library_run_def Library_ops_demo_def library_demo_def repository_demo_value
      issueMediaToUser_def returnMediaFromUser_def getUser_def findMedia_def isMediaIssued_def
      hasMedia_def put_user_def issueMedia_def returnMedia_def)

text \<open>
  C6. With a repository reached from the empty one by \<open>addMedia\<close> and \<open>removeMedia\<close> calls,
  \<open>issueMediaToUser\<close> returns true exactly when the user exists, the media id is in the
  repository and no user holds the media id. The calls of \<open>issueMediaToUser\<close> and
  \<open>returnMediaFromUser\<close> leave the repository alone, and after any sequence of them every
  media id is still in the issued list of at most one user.
\<close>

theorem issue_keeps_single_holder:
  assumes "mediaRepo lib = repository_run rops InMemoryMediaRepository_new"
    and "users_wf (userManager lib)"
  shows "(fst (issueMediaToUser mediaId userId lib) \<longleftrightarrow>
            exists_user userId (userManager lib) \<and> exists_media mediaId (mediaRepo lib) \<and>
            (\<forall>p \<in> set (users (userManager lib)). mediaId \<notin> set (issuedMediaIds (snd p)))) \<and>
         mediaRepo (Library_run ops lib) = mediaRepo lib \<and>
         users_wf (userManager (Library_run ops lib)) \<and>
         (at_most_one_holder (userManager lib) \<longrightarrow>
            at_most_one_holder (userManager (Library_run ops lib)))"
proof -
  from assms(1) have "repo_inv (mediaRepo lib)"
    by (simp add: repo_inv_reachable)
  from issueMediaToUser_iff [OF this, of mediaId userId]
  have iff: "fst (issueMediaToUser mediaId userId lib) \<longleftrightarrow>
            exists_user userId (userManager lib) \<and> exists_media mediaId (mediaRepo lib) \<and>
            (\<forall>p \<in> set (users (userManager lib)). mediaId \<notin> set (issuedMediaIds (snd p)))"
    by (simp add: isMediaIssued_iff)
  have keep: "at_most_one_holder (userManager (Library_run ops lib))"
    if "at_most_one_holder (userManager lib)"
    using library_inv_run [of lib ops] assms(2) that by (simp add: library_inv_def)
  have wf: "users_wf (userManager (Library_run ops lib))"
    using assms(2)
    unfolding Library_run_def
  proof (induction ops arbitrary: lib)
    case Nil
    then show ?case by simp
  next
    case (Cons c ops)
    from Cons.prems have "users_wf (userManager (Library_apply c lib))"
      by (cases c)
        (auto simp: issueMediaToUser_def returnMediaFromUser_def users_wf_put_user
          split: option.splits)
    from Cons.IH [OF this] show ?case by simp
  qed
  from iff keep wf mediaRepo_run [of ops lib] show ?thesis by blast
qed

theorem issue_keeps_single_holder_witness:
  "users_wf (userManager library_demo) \<and>
   at_most_one_holder (userManager library_demo) \<and>
   fst (issueMediaToUser ''B101'' ''U001'' library_demo) \<and>
   exists_user ''U001'' (userManager library_demo) \<and>
   exists_media ''B101'' (mediaRepo library_demo) \<and>
   at_most_one_holder (userManager (Library_run Library_ops_demo library_demo)) \<and>
   userManager (Library_run Library_ops_demo library_demo) =
     \<lparr>users =
        [(''U001'', \<lparr>user_id = ''U001'', user_name = ''Alice'', issuedMediaIds = []\<rparr>),
         (''U002'', \<lparr>user_id = ''U002'', user_name = ''Bob'',
                    issuedMediaIds = [''A201'', ''B101'']\<rparr>)]\<rparr>"
proof -
  have issued: "fst (issueMediaToUser ''B101'' ''U001'' library_demo)"
    by (simp add: library_demo_def repository_demo_value issueMediaToUser_def getUser_def
        findMedia_def isMediaIssued_def hasMedia_def)
  from issue_keeps_single_holder [OF library_demo_repo library_demo_users(1),
      of "''B101''" "''U001''" Library_ops_demo]
    issued library_demo_users Library_run_demo
  show ?thesis by simp
qed

section \<open>U.LAB.9: a map of vectors\<close>

lemma map_of_sortMapVectors:
  "map_of (sortMapVectors data) k = map_option sort (map_of data k)"
  unfolding sortMapVectors_def by (induction data) auto

lemma keys_sortMapVectors: "map fst (sortMapVectors data) = map fst data"
  by (simp add: sortMapVectors_def comp_def)

lemma sortMapVectors_demo:
  "sortMapVectors data_demo = [(1, [7, 7, 15, 42, 99]), (2, [1, 3, 49, 50, 100])]"
  by (simp add: sortMapVectors_def data_demo_def)

text \<open>
  C7. \<open>sortMapVectors\<close> leaves the keys of the map as they are, and the vector that a key
  holds afterwards is in ascending order and is a permutation of the vector the key held
  before.
\<close>

theorem sortMapVectors_sorts_each_vector:
  "map fst (sortMapVectors data) = map fst data \<and>
   dom (map_of (sortMapVectors data)) = dom (map_of data) \<and>
   (\<forall>k v. map_of data k = Some v \<longrightarrow>
      (\<exists>v'. map_of (sortMapVectors data) k = Some v' \<and> sorted v' \<and> mset v' = mset v))"
proof -
  have "dom (map_of (sortMapVectors data)) = dom (map_of data)"
    by (auto simp: map_of_sortMapVectors dom_def)
  moreover have "\<forall>k v. map_of data k = Some v \<longrightarrow>
      (\<exists>v'. map_of (sortMapVectors data) k = Some v' \<and> sorted v' \<and> mset v' = mset v)"
    by (simp add: map_of_sortMapVectors)
  ultimately show ?thesis
    by (simp add: keys_sortMapVectors)
qed

theorem sortMapVectors_sorts_each_vector_witness:
  "map_of data_demo 1 = Some [42, 7, 99, 7, 15] \<and>
   map_of (sortMapVectors data_demo) 1 = Some [7, 7, 15, 42, 99] \<and>
   sorted [7, 7, 15, 42, 99 :: int] \<and>
   mset [7, 7, 15, 42, 99 :: int] = mset [42, 7, 99, 7, 15] \<and>
   map fst (sortMapVectors data_demo) = [1, 2]"
proof -
  have before: "map_of data_demo 1 = Some [42, 7, 99, 7, 15]"
    by (simp add: data_demo_def)
  have after: "map_of (sortMapVectors data_demo) 1 = Some [7, 7, 15, 42, 99]"
    by (simp add: sortMapVectors_demo)
  have keys: "map fst data_demo = [1, 2]"
    by (simp add: data_demo_def)
  from sortMapVectors_sorts_each_vector [of data_demo] before after keys
  show ?thesis by auto
qed

section \<open>U.LAB.10: the task manager\<close>

lemma findTask_None_iff:
  "findTask d tm = None \<longleftrightarrow> (\<forall>t \<in> set (tasks tm). description t \<noteq> d)"
  by (auto simp: findTask_def find_None_iff)

lemma std_sort_contract_descending:
  "std_sort_contract higher_priority srt \<Longrightarrow>
   sorted_wrt (\<lambda>a b. priority a \<ge> priority b) (srt xs)"
proof -
  assume "std_sort_contract higher_priority srt"
  then have "sorted_wrt (\<lambda>a b. \<not> higher_priority b a) (srt xs)"
    by (simp add: std_sort_contract_def)
  moreover have "(\<lambda>a b. \<not> higher_priority b a) = (\<lambda>a b. priority a \<ge> priority b)"
    by (auto simp: higher_priority_def fun_eq_iff)
  ultimately show ?thesis by simp
qed

lemma stable_sort_tasks_contract: "std_sort_contract higher_priority stable_sort_tasks"
proof -
  have cmp: "higher_priority = (\<lambda>a b. - priority a < - priority b)"
    by (auto simp: higher_priority_def fun_eq_iff)
  have srt: "stable_sort_tasks = sort_key (\<lambda>t. - priority t)"
    by (auto simp: stable_sort_tasks_def fun_eq_iff)
  show ?thesis
    unfolding cmp srt by (rule sort_key_contract)
qed

lemma addTask_sorted:
  assumes "std_sort_contract higher_priority srt"
  shows "sorted_wrt (\<lambda>a b. priority a \<ge> priority b) (tasks tm) \<Longrightarrow>
         sorted_wrt (\<lambda>a b. priority a \<ge> priority b) (tasks (snd (addTask srt d p tm)))"
  using std_sort_contract_descending [OF assms]
  by (simp add: addTask_def sortTasks_def)

lemma addTasks_sorted:
  assumes "std_sort_contract higher_priority srt"
  shows "sorted_wrt (\<lambda>a b. priority a \<ge> priority b) (tasks tm) \<Longrightarrow>
         addTasks srt reqs tm = Inr tm' \<Longrightarrow>
         sorted_wrt (\<lambda>a b. priority a \<ge> priority b) (tasks tm')"
proof (induction reqs arbitrary: tm)
  case Nil
  then show ?case by simp
next
  case (Cons req reqs)
  obtain d p where req: "req = (d, p)" by (cases req)
  obtain res tm1 where step: "addTask srt d p tm = (res, tm1)" by (cases "addTask srt d p tm")
  with Cons.prems(2) req obtain u where "res = Inr u" and rest: "addTasks srt reqs tm1 = Inr tm'"
    by (cases res) auto
  from addTask_sorted [OF assms Cons.prems(1), of d p] step
  have "sorted_wrt (\<lambda>a b. priority a \<ge> priority b) (tasks tm1)" by simp
  from Cons.IH [OF this rest] show ?case .
qed

lemma sorted_desc_head_max:
  "sorted_wrt (\<lambda>a b. priority a \<ge> priority b) (t # ts) \<Longrightarrow> u \<in> set (t # ts) \<Longrightarrow>
   priority u \<le> priority t"
  by auto

lemma addTasks_main: "addTasks stable_sort_tasks main_tasks TaskManager_new = Inr tm_main"
  by (simp add: main_tasks_def TaskManager_new_def tm_main_def addTask_def findTask_def
      sortTasks_def stable_sort_tasks_def)

text \<open>
  C1. In a manager reached from the empty one by \<open>addTask\<close> calls that all returned, the tasks
  are in descending order of priority; \<open>getNextTask\<close> and \<open>popNextTask\<close> throw
  \<open>NoTasksError\<close> exactly when no task is stored, and otherwise both return the first task,
  whose priority is at least that of every stored task.
\<close>

theorem task_queue_highest_priority_first:
  assumes "std_sort_contract higher_priority srt"
    and "addTasks srt reqs TaskManager_new = Inr tm"
  shows "sorted_wrt (\<lambda>a b. priority a \<ge> priority b) (tasks tm) \<and>
         (getNextTask tm = Inl NoTasksError \<longleftrightarrow> tasks tm = []) \<and>
         (fst (popNextTask tm) = Inl NoTasksError \<longleftrightarrow> tasks tm = []) \<and>
         (tasks tm \<noteq> [] \<longrightarrow>
            (\<exists>t. getNextTask tm = Inr t \<and> fst (popNextTask tm) = Inr t \<and>
                 (\<forall>u \<in> set (tasks tm). priority u \<le> priority t)))"
proof -
  have "sorted_wrt (\<lambda>a b. priority a \<ge> priority b) (tasks TaskManager_new)"
    by (simp add: TaskManager_new_def)
  from addTasks_sorted [OF assms(1) this assms(2)]
  have srt: "sorted_wrt (\<lambda>a b. priority a \<ge> priority b) (tasks tm)" .
  show ?thesis
  proof (cases "tasks tm")
    case Nil
    with srt show ?thesis by (simp add: getNextTask_def popNextTask_def)
  next
    case (Cons t ts)
    with srt have "\<forall>u \<in> set (tasks tm). priority u \<le> priority t"
      using sorted_desc_head_max [of t ts] by auto
    with srt Cons show ?thesis by (simp add: getNextTask_def popNextTask_def)
  qed
qed

theorem task_queue_highest_priority_first_witness:
  "std_sort_contract higher_priority stable_sort_tasks \<and>
   addTasks stable_sort_tasks main_tasks TaskManager_new = Inr tm_main \<and>
   tasks tm_main \<noteq> [] \<and>
   (\<exists>t. getNextTask tm_main = Inr t \<and> fst (popNextTask tm_main) = Inr t \<and>
        (\<forall>u \<in> set (tasks tm_main). priority u \<le> priority t)) \<and>
   getNextTask tm_main =
     Inr \<lparr>description = ''Fix Critical Bug'', priority = 100, isCompleted = False\<rparr>"
proof -
  have ne: "tasks tm_main \<noteq> []" by (simp add: tm_main_def)
  have nxt: "getNextTask tm_main =
     Inr \<lparr>description = ''Fix Critical Bug'', priority = 100, isCompleted = False\<rparr>"
    by (simp add: tm_main_def getNextTask_def)
  from task_queue_highest_priority_first [OF stable_sort_tasks_contract addTasks_main] ne nxt
    stable_sort_tasks_contract addTasks_main
  show ?thesis by blast
qed

text \<open>
  C2. \<open>addTask\<close> throws \<open>DuplicateTaskError\<close> exactly when a stored task has the description;
  then the manager is unchanged. Otherwise it returns, and the stored tasks are the old ones
  and one new task with the description and the priority, not completed.
\<close>

theorem addTask_duplicate_or_one_more:
  assumes "std_sort_contract higher_priority srt"
  shows "(fst (addTask srt d p tm) = Inl (DuplicateTaskError d) \<longleftrightarrow>
            (\<exists>t \<in> set (tasks tm). description t = d)) \<and>
         ((\<exists>t \<in> set (tasks tm). description t = d) \<longrightarrow>
            addTask srt d p tm = (Inl (DuplicateTaskError d), tm)) \<and>
         (\<not> (\<exists>t \<in> set (tasks tm). description t = d) \<longrightarrow>
            fst (addTask srt d p tm) = Inr () \<and>
            mset (tasks (snd (addTask srt d p tm))) =
              add_mset \<lparr>description = d, priority = p, isCompleted = False\<rparr> (mset (tasks tm)))"
proof (cases "findTask d tm = None")
  case True
  then have "\<not> (\<exists>t \<in> set (tasks tm). description t = d)"
    by (simp add: findTask_None_iff)
  with True std_sort_contract_mset [OF assms] show ?thesis
    by (simp add: addTask_def sortTasks_def)
next
  case False
  then have "\<exists>t \<in> set (tasks tm). description t = d"
    by (simp add: findTask_None_iff)
  with False show ?thesis
    by (simp add: addTask_def)
qed

theorem addTask_duplicate_or_one_more_witness:
  "std_sort_contract higher_priority stable_sort_tasks \<and>
   (\<exists>t \<in> set (tasks tm_main). description t = ''Review Code'') \<and>
   addTask stable_sort_tasks ''Review Code'' 80 tm_main
     = (Inl (DuplicateTaskError ''Review Code''), tm_main) \<and>
   \<not> (\<exists>t \<in> set (tasks tm_main). description t = ''Deploy'') \<and>
   fst (addTask stable_sort_tasks ''Deploy'' 70 tm_main) = Inr () \<and>
   mset (tasks (snd (addTask stable_sort_tasks ''Deploy'' 70 tm_main))) =
     add_mset \<lparr>description = ''Deploy'', priority = 70, isCompleted = False\<rparr>
       (mset (tasks tm_main))"
proof -
  have dup: "\<exists>t \<in> set (tasks tm_main). description t = ''Review Code''"
    by (simp add: tm_main_def)
  have fresh: "\<not> (\<exists>t \<in> set (tasks tm_main). description t = ''Deploy'')"
    by (simp add: tm_main_def)
  from addTask_duplicate_or_one_more [OF stable_sort_tasks_contract, of "''Review Code''" 80 tm_main]
    addTask_duplicate_or_one_more [OF stable_sort_tasks_contract, of "''Deploy''" 70 tm_main]
    dup fresh stable_sort_tasks_contract
  show ?thesis by blast
qed

lemma erase_after_update:
  "take idx (xs[idx := v]) @ drop (Suc idx) (xs[idx := v]) = take idx xs @ drop (Suc idx) xs"
  by simp

lemma set_erase_subset: "set (take idx xs @ drop (Suc idx) xs) \<subseteq> set xs"
  using set_take_subset [of idx xs] set_drop_subset [of "Suc idx" xs] by auto

lemma none_completed_addTask:
  assumes "std_sort_contract higher_priority srt" and "none_completed tm"
  shows "none_completed (snd (addTask srt d p tm))"
  using assms(2) std_sort_contract_set [OF assms(1)]
  by (auto simp: none_completed_def addTask_def sortTasks_def)

lemma none_completed_completeTask:
  assumes "none_completed tm"
  shows "none_completed (snd (completeTask idx tm))"
proof -
  have "set (take idx (tasks tm) @ drop (Suc idx) (tasks tm)) \<subseteq> set (tasks tm)"
    by (rule set_erase_subset)
  with assms show ?thesis
    unfolding none_completed_def completeTask_def Let_def
    by (auto simp del: set_append)
qed

lemma none_completed_popNextTask:
  assumes "none_completed tm"
  shows "none_completed (snd (popNextTask tm))"
  using assms by (auto simp: none_completed_def popNextTask_def split: list.splits)

lemma none_completed_apply:
  assumes "std_sort_contract higher_priority srt" and "none_completed tm"
  shows "none_completed (TaskManager_apply srt c tm)"
  using assms
  by (cases c) (simp_all add: none_completed_addTask none_completed_completeTask
      none_completed_popNextTask)

lemma none_completed_run:
  assumes "std_sort_contract higher_priority srt"
  shows "none_completed tm \<Longrightarrow> none_completed (TaskManager_run srt ops tm)"
  unfolding TaskManager_run_def
  by (induction ops arbitrary: tm) (simp_all add: none_completed_apply [OF assms])

lemma none_completed_new: "none_completed TaskManager_new"
  by (simp add: none_completed_def TaskManager_new_def)

lemma completeTask_never_text:
  assumes "none_completed tm"
  shows "fst (completeTask idx tm) \<noteq> Inl (TaskNotFoundError_text s)"
proof (cases "idx \<ge> length (tasks tm)")
  case True
  then show ?thesis by (simp add: completeTask_def)
next
  case False
  then have "tasks tm ! idx \<in> set (tasks tm)" by simp
  with assms have "\<not> isCompleted (tasks tm ! idx)" by (simp add: none_completed_def)
  with False show ?thesis by (simp add: completeTask_def Let_def)
qed

lemma displayTasks_no_marker:
  assumes "none_completed tm"
  shows "\<forall>line \<in> set (displayTasks tm). snd (snd (snd line)) = ''''"
  using assms by (auto simp: displayTasks_def none_completed_def)

lemma run_ops_main: "TaskManager_run stable_sort_tasks ops_main TaskManager_new = tm_after_main"
  by (simp add: ops_main_def TaskManager_run_def TaskManager_new_def tm_after_main_def
      addTask_def findTask_def sortTasks_def stable_sort_tasks_def completeTask_def
      popNextTask_def Let_def)

text \<open>
  C8. After any sequence of calls of the public member functions on a new manager, whether
  they returned or threw, no stored task is completed. So \<open>completeTask\<close> never throws
  the exception of its already-completed branch, and no line of \<open>displayTasks\<close> carries the
  completion marker.
\<close>

theorem never_stores_completed_task:
  assumes "std_sort_contract higher_priority srt"
  shows "(\<forall>t \<in> set (tasks (TaskManager_run srt ops TaskManager_new)). \<not> isCompleted t) \<and>
         (\<forall>idx s. fst (completeTask idx (TaskManager_run srt ops TaskManager_new))
                    \<noteq> Inl (TaskNotFoundError_text s)) \<and>
         (\<forall>line \<in> set (displayTasks (TaskManager_run srt ops TaskManager_new)).
            snd (snd (snd line)) = '''')"
proof -
  have inv: "none_completed (TaskManager_run srt ops TaskManager_new)"
    by (rule none_completed_run [OF assms none_completed_new])
  then have "\<forall>t \<in> set (tasks (TaskManager_run srt ops TaskManager_new)). \<not> isCompleted t"
    by (simp add: none_completed_def)
  with completeTask_never_text [OF inv] displayTasks_no_marker [OF inv]
  show ?thesis by blast
qed

theorem never_stores_completed_task_witness:
  "std_sort_contract higher_priority stable_sort_tasks \<and>
   TaskManager_run stable_sort_tasks ops_main TaskManager_new = tm_after_main \<and>
   map isCompleted (tasks tm_after_main) = [False, False] \<and>
   (\<forall>idx s. fst (completeTask idx tm_after_main) \<noteq> Inl (TaskNotFoundError_text s)) \<and>
   displayTasks tm_after_main =
     [(0, 50, ''Refactor Legacy Module'', []), (1, 20, ''Write Documentation'', [])]"
proof -
  have shown: "displayTasks tm_after_main =
     [(0, 50, ''Refactor Legacy Module'', []), (1, 20, ''Write Documentation'', [])]"
    by (simp add: displayTasks_def tm_after_main_def upt_rec)
  have flags: "map isCompleted (tasks tm_after_main) = [False, False]"
    by (simp add: tm_after_main_def)
  from never_stores_completed_task [OF stable_sort_tasks_contract, of ops_main]
  have "\<forall>idx s. fst (completeTask idx tm_after_main) \<noteq> Inl (TaskNotFoundError_text s)"
    unfolding run_ops_main by blast
  with shown flags stable_sort_tasks_contract run_ops_main show ?thesis by blast
qed

end
